theory Spec2Isabelle
  imports Main "HOL-Library.Sublist"
begin

section \<open>The href rewriter (fix-href.js and its configurable variant)\<close>

text \<open>
  JavaScript strings are sequences of code units; \<open>includes\<close>, \<open>indexOf\<close>,
  \<open>substring\<close>, \<open>===\<close> and \<open>+\<close> work unit by unit, so a string is modelled as a
  list of characters. The three library methods are written out as ECMAScript
  defines them: \<open>indexOf\<close> returns the first position at which the search string
  occurs, or \<open>-1\<close>; \<open>includes\<close> is the test that this search finds something;
  \<open>substring\<close> clamps both arguments to \<open>[0, length]\<close> and swaps them when they
  are out of order. The characters of the model are bytes; the two search strings
  of the source, \<open>.html\<close> and \<open>#\<close>, are ASCII, and nothing below depends on the size
  of a character.
\<close>

fun indexOf_from :: "string \<Rightarrow> string \<Rightarrow> nat \<Rightarrow> int" where
  "indexOf_from [] t i = (if t = [] then int i else - 1)"
| "indexOf_from (c # cs) t i =
     (if prefix t (c # cs) then int i else indexOf_from cs t (Suc i))"

definition indexOf :: "string \<Rightarrow> string \<Rightarrow> int" where
  "indexOf s t = indexOf_from s t 0"

definition includes_str :: "string \<Rightarrow> string \<Rightarrow> bool" where
  "includes_str s t = (indexOf s t \<noteq> - 1)"

definition substring :: "string \<Rightarrow> int \<Rightarrow> int \<Rightarrow> string" where
  "substring s indexStart indexEnd =
     (let len = int (length s);
          a = min (max indexStart 0) len;
          b = min (max indexEnd 0) len;
          lo = min a b;
          hi = max a b
      in take (nat (hi - lo)) (drop (nat lo) s))"

definition substring_from :: "string \<Rightarrow> int \<Rightarrow> string" where
  "substring_from s indexStart = substring s indexStart (int (length s))"

text \<open>\<open>transformHref\<close> of fix-href.js, with the base path written into the code.\<close>

definition transformHref :: "string \<Rightarrow> string" where
  "transformHref href =
     (if includes_str href ''.html'' then href
      else
        let hashIndex = indexOf href ''#'' in
        if hashIndex \<noteq> - 1 then
          let beforeHash = substring href 0 hashIndex;
              afterHash = substring_from href hashIndex
          in if beforeHash = ''/src/pages'' then ''/src/pages/index.html'' @ afterHash
             else beforeHash @ ''.html'' @ afterHash
        else if href = ''/src/pages'' then ''/src/pages/index.html''
        else href @ ''.html'')"

text \<open>
  The second source file holds the same function with the base path read from a
  module constant. The constant is a parameter of the model; \<open>BASE_PATH\<close> is the
  value that file gives it.
\<close>

definition BASE_PATH :: string where
  "BASE_PATH = ''/aktiv/src/pages''"

definition transformHref_cfg :: "string \<Rightarrow> string \<Rightarrow> string" where
  "transformHref_cfg base href =
     (if includes_str href ''.html'' then href
      else
        let hashIndex = indexOf href ''#'' in
        if hashIndex \<noteq> - 1 then
          let beforeHash = substring href 0 hashIndex;
              afterHash = substring_from href hashIndex
          in if beforeHash = base then base @ ''/index.html'' @ afterHash
             else beforeHash @ ''.html'' @ afterHash
        else if href = base then base @ ''/index.html''
        else href @ ''.html'')"

text \<open>
  The function's parameter is untyped. A caller that passes something other than
  a string (for instance the \<open>null\<close> that \<open>getAttribute\<close> returns for a missing
  attribute) fails at the first method call, \<open>href.includes\<close>: on \<open>null\<close> and
  \<open>undefined\<close> the property read throws, on a number or a boolean the property is
  \<open>undefined\<close> and calling it throws. Both are a \<open>TypeError\<close>.
\<close>

datatype js_error = TypeError

datatype js_value = JString string | JNull | JUndefined | JNumber int | JBoolean bool

fun transformHref_call :: "js_value \<Rightarrow> js_error + string" where
  "transformHref_call (JString href) = Inr (transformHref href)"
| "transformHref_call JNull = Inl TypeError"
| "transformHref_call JUndefined = Inl TypeError"
| "transformHref_call (JNumber n) = Inl TypeError"
| "transformHref_call (JBoolean b) = Inl TypeError"

text \<open>
  The rule list of the specification, written from its words: an href that
  contains the extension marker is returned as it is; otherwise it is split at
  the first \<open>#\<close> into the part before and the hash part (which keeps the \<open>#\<close> and
  is empty when there is none), the part before is rewritten, and the hash part
  is put back.
\<close>

definition transform_spec :: "string \<Rightarrow> string \<Rightarrow> string" where
  "transform_spec basePath href =
     (if sublist ''.html'' href then href
      else
        let beforePart = takeWhile (\<lambda>c. c \<noteq> CHR ''#'') href;
            hashPart = dropWhile (\<lambda>c. c \<noteq> CHR ''#'') href;
            rewritten = (if beforePart = basePath then basePath @ ''/index.html''
                         else beforePart @ ''.html'')
        in rewritten @ hashPart)"

section \<open>The testimonial slider\<close>

subsection \<open>Numbers, class lists and the host's timers\<close>

text \<open>
  The slide index is a JavaScript number. The values it takes here are integers
  far below \<open>2^53\<close> (they are bounded by the length of a node list), on which
  double arithmetic is exact, and \<open>NaN\<close>, which the remainder by zero produces.
  \<open>%\<close> is the truncating remainder: its result has the sign of the dividend.
\<close>

datatype js_number = Num int | NaN

fun js_add :: "js_number \<Rightarrow> js_number \<Rightarrow> js_number" where
  "js_add (Num a) (Num b) = Num (a + b)"
| "js_add _ _ = NaN"

fun js_sub :: "js_number \<Rightarrow> js_number \<Rightarrow> js_number" where
  "js_sub (Num a) (Num b) = Num (a - b)"
| "js_sub _ _ = NaN"

fun js_rem :: "js_number \<Rightarrow> js_number \<Rightarrow> js_number" where
  "js_rem (Num a) (Num b) = (if b = 0 then NaN else Num (sgn a * (\<bar>a\<bar> mod \<bar>b\<bar>)))"
| "js_rem _ _ = NaN"

text \<open>
  An element is modelled by its class list, an ordered list of tokens without
  repetition: \<open>add\<close> appends the tokens that are not there yet, \<open>remove\<close> deletes
  the given tokens.
\<close>

definition classList_add :: "string list \<Rightarrow> string list \<Rightarrow> string list" where
  "classList_add cl toks = fold (\<lambda>t acc. if t \<in> set acc then acc else acc @ [t]) toks cl"

definition classList_remove :: "string list \<Rightarrow> string list \<Rightarrow> string list" where
  "classList_remove cl toks = filter (\<lambda>c. c \<notin> set toks) cl"

text \<open>
  Indexed access to the node list: the position when the index is an integer
  within the list, nothing (\<open>undefined\<close> in the source) otherwise.
\<close>

fun item :: "'a list \<Rightarrow> js_number \<Rightarrow> nat option" where
  "item xs (Num i) = (if 0 \<le> i \<and> i < int (length xs) then Some (nat i) else None)"
| "item xs NaN = None"

text \<open>
  The two functions the slider hands to the host: the body of the \<open>setTimeout\<close>
  in \<open>showSlide\<close>, and the body of the \<open>setInterval\<close> in \<open>startAutoplay\<close>. A timer
  has the id the host gave it, the time at which it is due, its period when it
  repeats, and its callback.
\<close>

datatype callback = ReleaseLock | AutoplayTick

record timer =
  tid :: nat
  due :: nat
  period :: "nat option"
  cb :: callback

text \<open>
  The state: the fields of the \<open>TestimonialSlider\<close> object (the two buttons are
  optional, as the \<open>?.\<close> of the source allows), followed by the part of the host
  the slider uses: a clock in milliseconds, the next timer id (ids are positive,
  so an id is truthy), the active timers in order of creation, the callbacks the
  event loop has run, and the errors that reached it uncaught.
\<close>

record slider_state =
  slides :: "string list list"
  prevBtn :: "string list option"
  nextBtn :: "string list option"
  currentSlide :: js_number
  totalSlides :: nat
  autoplayInterval :: "nat option"
  autoplayDelay :: nat
  isTransitioning :: bool
  clickDelay :: nat
  now :: nat
  nextTimerId :: nat
  timers :: "timer list"
  fired :: "callback list"
  uncaught :: "js_error list"

text \<open>A call returns, or throws with the state it has reached by then.\<close>

datatype outcome = Returns slider_state | Throws js_error slider_state

definition setTimeout :: "callback \<Rightarrow> nat \<Rightarrow> slider_state \<Rightarrow> nat \<times> slider_state" where
  "setTimeout f delay s =
     (nextTimerId s,
      s\<lparr>timers := timers s @ [\<lparr>tid = nextTimerId s, due = now s + delay, period = None, cb = f\<rparr>],
        nextTimerId := Suc (nextTimerId s)\<rparr>)"

definition setInterval :: "callback \<Rightarrow> nat \<Rightarrow> slider_state \<Rightarrow> nat \<times> slider_state" where
  "setInterval f delay s =
     (nextTimerId s,
      s\<lparr>timers := timers s @ [\<lparr>tid = nextTimerId s, due = now s + delay, period = Some delay, cb = f\<rparr>],
        nextTimerId := Suc (nextTimerId s)\<rparr>)"

definition clearInterval :: "nat \<Rightarrow> slider_state \<Rightarrow> slider_state" where
  "clearInterval i s = s\<lparr>timers := filter (\<lambda>t. tid t \<noteq> i) (timers s)\<rparr>"

subsection \<open>The methods of the class\<close>

definition disableButtons :: "slider_state \<Rightarrow> slider_state" where
  "disableButtons s =
     (let s1 = s\<lparr>prevBtn := map_option
                 (\<lambda>c. classList_add c [''opacity-50'', ''cursor-not-allowed'', ''pointer-events-none''])
                 (prevBtn s)\<rparr>
      in s1\<lparr>nextBtn := map_option
                 (\<lambda>c. classList_add c [''opacity-50'', ''cursor-not-allowed'', ''pointer-events-none''])
                 (nextBtn s1)\<rparr>)"

definition enableButtons :: "slider_state \<Rightarrow> slider_state" where
  "enableButtons s =
     (let s1 = s\<lparr>prevBtn := map_option
                 (\<lambda>c. classList_remove c [''opacity-50'', ''cursor-not-allowed'', ''pointer-events-none''])
                 (prevBtn s)\<rparr>
      in s1\<lparr>nextBtn := map_option
                 (\<lambda>c. classList_remove c [''opacity-50'', ''cursor-not-allowed'', ''pointer-events-none''])
                 (nextBtn s1)\<rparr>)"

text \<open>
  \<open>showSlide\<close>: the guard, the flag, the buttons, hiding every slide, then the two
  reads of \<open>this.slides[index]\<close>. When the index names no slide the read gives
  \<open>undefined\<close> and \<open>.classList\<close> throws; the writes made before stay, and neither
  the assignment to \<open>currentSlide\<close> nor the \<open>setTimeout\<close> is reached.
\<close>

definition showSlide :: "js_number \<Rightarrow> slider_state \<Rightarrow> outcome" where
  "showSlide index s =
     (if isTransitioning s then Returns s
      else
        let s1 = s\<lparr>isTransitioning := True\<rparr>;
            s2 = disableButtons s1;
            s3 = s2\<lparr>slides := map (\<lambda>slide. classList_add (classList_remove slide [''opacity-100''])
                                                          [''opacity-0''])
                                  (slides s2)\<rparr>
        in case item (slides s3) index of
             None \<Rightarrow> Throws TypeError s3
           | Some i \<Rightarrow>
               let s4 = s3\<lparr>slides := (slides s3)[i := classList_remove (slides s3 ! i) [''opacity-0'']]\<rparr>;
                   s5 = s4\<lparr>slides := (slides s4)[i := classList_add (slides s4 ! i) [''opacity-100'']]\<rparr>;
                   s6 = s5\<lparr>currentSlide := index\<rparr>
               in Returns (snd (setTimeout ReleaseLock (clickDelay s6) s6)))"

definition nextSlide :: "slider_state \<Rightarrow> outcome" where
  "nextSlide s =
     (let nextIndex = js_rem (js_add (currentSlide s) (Num 1)) (Num (int (totalSlides s)))
      in showSlide nextIndex s)"

definition prevSlide :: "slider_state \<Rightarrow> outcome" where
  "prevSlide s =
     (let prevIndex = js_rem (js_add (js_sub (currentSlide s) (Num 1)) (Num (int (totalSlides s))))
                             (Num (int (totalSlides s)))
      in showSlide prevIndex s)"

definition pauseAutoplay :: "slider_state \<Rightarrow> slider_state" where
  "pauseAutoplay s =
     (case autoplayInterval s of
        None \<Rightarrow> s
      | Some i \<Rightarrow> if i \<noteq> 0 then (clearInterval i s)\<lparr>autoplayInterval := None\<rparr> else s)"

definition startAutoplay :: "slider_state \<Rightarrow> slider_state" where
  "startAutoplay s =
     (let s1 = pauseAutoplay s;
          (i, s2) = setInterval AutoplayTick (autoplayDelay s1) s1
      in s2\<lparr>autoplayInterval := Some i\<rparr>)"

definition restartAutoplay :: "slider_state \<Rightarrow> slider_state" where
  "restartAutoplay s = startAutoplay s"

text \<open>
  \<open>init\<close> registers the listeners (a click on a button calls \<open>prevSlide\<close> or
  \<open>nextSlide\<close>, entering and leaving the container call \<open>pauseAutoplay\<close> and
  \<open>startAutoplay\<close>) and starts the slideshow. The listeners are the actions below.
  The constructor takes what its three lookups in the document return; the clock
  starts at the construction.
\<close>

definition init :: "slider_state \<Rightarrow> slider_state" where
  "init s = startAutoplay s"

definition constructor ::
  "string list list \<Rightarrow> string list option \<Rightarrow> string list option \<Rightarrow> outcome" where
  "constructor slideElements prevButton nextButton =
     Returns (init \<lparr>slides = slideElements, prevBtn = prevButton, nextBtn = nextButton,
                    currentSlide = Num 0, totalSlides = length slideElements,
                    autoplayInterval = None, autoplayDelay = 3000,
                    isTransitioning = False, clickDelay = 800,
                    now = 0, nextTimerId = 1, timers = [], fired = [], uncaught = []\<rparr>)"

subsection \<open>The event loop\<close>

definition run_callback :: "callback \<Rightarrow> slider_state \<Rightarrow> outcome" where
  "run_callback f s =
     (case f of
        ReleaseLock \<Rightarrow> Returns (enableButtons (s\<lparr>isTransitioning := False\<rparr>))
      | AutoplayTick \<Rightarrow> if \<not> isTransitioning s then nextSlide s else Returns s)"

text \<open>
  An error thrown by a callback or a listener is reported by the host and the
  event loop goes on.
\<close>

definition settle :: "outcome \<Rightarrow> slider_state" where
  "settle r = (case r of Returns s \<Rightarrow> s | Throws e s \<Rightarrow> s\<lparr>uncaught := uncaught s @ [e]\<rparr>)"

text \<open>
  Firing the timer with a given id, if it is still active: a timeout is removed,
  an interval is armed again one period later, and the callback runs.
\<close>

definition fire :: "nat \<Rightarrow> slider_state \<Rightarrow> slider_state" where
  "fire i s =
     (case find (\<lambda>t. tid t = i) (timers s) of
        None \<Rightarrow> s
      | Some t \<Rightarrow>
          let s1 = (case period t of
                      None \<Rightarrow> s\<lparr>timers := filter (\<lambda>u. tid u \<noteq> i) (timers s)\<rparr>
                    | Some p \<Rightarrow> s\<lparr>timers := map (\<lambda>u. if tid u = i then u\<lparr>due := now s + p\<rparr> else u)
                                                 (timers s)\<rparr>);
              s2 = s1\<lparr>fired := fired s1 @ [cb t]\<rparr>
          in settle (run_callback (cb t) s2))"

text \<open>One millisecond passes: the timers that are due fire, in order of creation.\<close>

definition tick :: "slider_state \<Rightarrow> slider_state" where
  "tick s =
     (let s1 = s\<lparr>now := Suc (now s)\<rparr>
      in fold fire (map tid (filter (\<lambda>t. due t \<le> now s1) (timers s1))) s1)"

fun elapse :: "nat \<Rightarrow> slider_state \<Rightarrow> slider_state" where
  "elapse 0 s = s"
| "elapse (Suc n) s = elapse n (tick s)"

datatype action = Next | Prev | StartAutoplay | PauseAutoplay | RestartAutoplay | Elapse nat

fun apply_action :: "action \<Rightarrow> slider_state \<Rightarrow> slider_state" where
  "apply_action Next s = settle (nextSlide s)"
| "apply_action Prev s = settle (prevSlide s)"
| "apply_action StartAutoplay s = startAutoplay s"
| "apply_action PauseAutoplay s = pauseAutoplay s"
| "apply_action RestartAutoplay s = restartAutoplay s"
| "apply_action (Elapse n) s = elapse n s"

definition run :: "action list \<Rightarrow> slider_state \<Rightarrow> slider_state" where
  "run acts s = fold apply_action acts s"

subsection \<open>The invariant of the slider\<close>

definition index_in_range :: "slider_state \<Rightarrow> bool" where
  "index_in_range s =
     (case currentSlide s of Num i \<Rightarrow> 0 \<le> i \<and> i < int (totalSlides s) | NaN \<Rightarrow> False)"

definition release_timers :: "slider_state \<Rightarrow> timer list" where
  "release_timers s = filter (\<lambda>t. cb t = ReleaseLock) (timers s)"

definition autoplay_timers :: "slider_state \<Rightarrow> timer list" where
  "autoplay_timers s = filter (\<lambda>t. cb t = AutoplayTick) (timers s)"

definition release_ok :: "slider_state \<Rightarrow> timer \<Rightarrow> bool" where
  "release_ok s t =
     (cb t = ReleaseLock \<and> period t = None \<and> now s < due t \<and> due t \<le> now s + clickDelay s \<and>
      0 < tid t \<and> tid t < nextTimerId s)"

definition autoplay_ok :: "slider_state \<Rightarrow> timer \<Rightarrow> bool" where
  "autoplay_ok s t =
     (cb t = AutoplayTick \<and> period t = Some (autoplayDelay s) \<and> now s < due t \<and>
      autoplayInterval s = Some (tid t) \<and> 0 < tid t \<and> tid t < nextTimerId s)"

text \<open>
  The active timers are at most the timeout that releases the lock, there exactly
  when a transition is in flight, and the autoplay interval whose id the slider
  holds. When the timeout was created first, it is due strictly earlier. Together
  with an index in range, a slide list that is not empty, a settle delay shorter
  than the autoplay delay and no uncaught error, this is the invariant: the state
  the constructor returns on at least one slide satisfies it, and every method call
  and every passing of time keeps it.
\<close>

fun timers_ok :: "slider_state \<Rightarrow> timer list \<Rightarrow> bool" where
  "timers_ok s [] = (\<not> isTransitioning s \<and> autoplayInterval s = None)"
| "timers_ok s [t] =
     (if isTransitioning s then release_ok s t \<and> autoplayInterval s = None
      else autoplay_ok s t)"
| "timers_ok s [t, u] =
     (isTransitioning s \<and> tid t \<noteq> tid u \<and>
      ((autoplay_ok s t \<and> release_ok s u) \<or>
       (release_ok s t \<and> autoplay_ok s u \<and> due t < due u)))"
| "timers_ok s (t # u # v # ts) = False"

definition slider_inv :: "slider_state \<Rightarrow> bool" where
  "slider_inv s =
     (totalSlides s = length (slides s) \<and> 0 < totalSlides s \<and> index_in_range s \<and>
      0 < clickDelay s \<and> clickDelay s < autoplayDelay s \<and>
      0 < nextTimerId s \<and> uncaught s = [] \<and> timers_ok s (timers s))"

subsection \<open>Auxiliary states and measures\<close>

text \<open>
  Names for the states that the statements below speak about. \<open>hide_all\<close> is the
  loop of \<open>showSlide\<close> over every slide; \<open>shown s index i\<close> is the state in which
  \<open>showSlide index\<close> returns when it is called on \<open>s\<close> outside a transition and the
  index names the slide at position \<open>i\<close>.
\<close>

definition hide_all :: "string list list \<Rightarrow> string list list" where
  "hide_all xs = map (\<lambda>slide. classList_add (classList_remove slide [''opacity-100'']) [''opacity-0'']) xs"

definition shown :: "slider_state \<Rightarrow> js_number \<Rightarrow> nat \<Rightarrow> slider_state" where
  "shown s index i =
     s\<lparr>isTransitioning := True,
       prevBtn := map_option (\<lambda>c. classList_add c [''opacity-50'', ''cursor-not-allowed'', ''pointer-events-none'']) (prevBtn s),
       nextBtn := map_option (\<lambda>c. classList_add c [''opacity-50'', ''cursor-not-allowed'', ''pointer-events-none'']) (nextBtn s),
       slides := (hide_all (slides s))[i := classList_add (classList_remove (hide_all (slides s) ! i) [''opacity-0'']) [''opacity-100'']],
       currentSlide := index,
       timers := timers s @ [\<lparr>tid = nextTimerId s, due = now s + clickDelay s, period = None, cb = ReleaseLock\<rparr>],
       nextTimerId := Suc (nextTimerId s)\<rparr>"

text \<open>
  The state in which the autoplay callback starts when its interval \<open>a\<close>, the only
  active timer, fires one millisecond after \<open>s\<close>.
\<close>

definition rearmed :: "slider_state \<Rightarrow> timer \<Rightarrow> slider_state" where
  "rearmed s a = s\<lparr>now := Suc (now s), timers := [a\<lparr>due := Suc (now s) + autoplayDelay s\<rparr>],
                    fired := fired s @ [AutoplayTick]\<rparr>"

text \<open>The time left until the pending release of the lock, 0 when there is none.\<close>

definition lock_left :: "slider_state \<Rightarrow> nat" where
  "lock_left s = (case release_timers s of [] \<Rightarrow> 0 | r # rs \<Rightarrow> due r - now s)"

text \<open>The state in which the constructor returns.\<close>

definition initial :: "string list list \<Rightarrow> string list option \<Rightarrow> string list option \<Rightarrow> slider_state" where
  "initial sl p n =
     \<lparr>slides = sl, prevBtn = p, nextBtn = n, currentSlide = Num 0, totalSlides = length sl,
      autoplayInterval = Some 1, autoplayDelay = 3000, isTransitioning = False, clickDelay = 800,
      now = 0, nextTimerId = 2,
      timers = [\<lparr>tid = 1, due = 3000, period = Some 3000, cb = AutoplayTick\<rparr>],
      fired = [], uncaught = []\<rparr>"

text \<open>A page with three testimonials, the first one visible, for the concrete instances.\<close>

definition demo_slides :: "string list list" where
  "demo_slides =
     [[''testimonial-slide'', ''opacity-100''],
      [''testimonial-slide'', ''opacity-0''],
      [''testimonial-slide'', ''opacity-0'']]"

section \<open>Properties of the href rewriter\<close>

lemma indexOf_from_sublist: "indexOf_from s t i \<noteq> - 1 \<longleftrightarrow> sublist t s"
  by (induction s arbitrary: i) (auto simp: sublist_Cons_right)

lemma includes_str_sublist: "includes_str s t \<longleftrightarrow> sublist t s"
  by (simp add: includes_str_def indexOf_def indexOf_from_sublist)

lemma indexOf_from_char:
  "indexOf_from s [c] i =
     (if c \<in> set s then int (i + length (takeWhile (\<lambda>x. x \<noteq> c) s)) else - 1)"
  by (induction s arbitrary: i) auto

lemma indexOf_char:
  "indexOf s [c] = (if c \<in> set s then int (length (takeWhile (\<lambda>x. x \<noteq> c) s)) else - 1)"
  by (simp add: indexOf_def indexOf_from_char)

lemma substring_take: "k \<le> length s \<Longrightarrow> substring s 0 (int k) = take k s"
  by (simp add: substring_def Let_def min_def max_def)

lemma substring_from_drop: "k \<le> length s \<Longrightarrow> substring_from s (int k) = drop k s"
  by (simp add: substring_from_def substring_def Let_def min_def max_def)

lemma take_length_takeWhile: "take (length (takeWhile P xs)) xs = takeWhile P xs"
  by (induction xs) auto

lemma drop_length_takeWhile: "drop (length (takeWhile P xs)) xs = dropWhile P xs"
  by (induction xs) auto

lemma dropWhile_absent:
  "c \<notin> set s \<Longrightarrow> dropWhile (\<lambda>x. x \<noteq> c) s = [] \<and> takeWhile (\<lambda>x. x \<noteq> c) s = s"
  by (induction s) auto

lemma transformHref_cfg_spec: "transformHref_cfg base href = transform_spec base href"
proof (cases "CHR ''#'' \<in> set href")
  case True
  then show ?thesis
    by (simp add: transformHref_cfg_def transform_spec_def includes_str_sublist indexOf_char
        substring_take substring_from_drop length_takeWhile_le take_length_takeWhile
        drop_length_takeWhile Let_def)
next
  case False
  then show ?thesis
    by (simp add: transformHref_cfg_def transform_spec_def includes_str_sublist indexOf_char
        dropWhile_absent Let_def)
qed

lemma transformHref_is_cfg: "transformHref href = transformHref_cfg ''/src/pages'' href"
  by (simp add: transformHref_def transformHref_cfg_def Let_def)

lemma transform_spec_has_ext: "sublist ''.html'' (transform_spec base href)"
proof (cases "sublist ''.html'' href")
  case True
  then show ?thesis by (simp add: transform_spec_def)
next
  case False
  have a: "sublist ''.html'' ((base @ ''/index'') @ ''.html'' @ hs)" for hs
    by (rule sublist_appendI)
  have b: "sublist ''.html'' (bs @ ''.html'' @ hs)" for bs hs :: string
    by (rule sublist_appendI)
  from False a b show ?thesis
    by (simp add: transform_spec_def Let_def del: sublist_appendI)
qed

text \<open>
  C1. For every href, \<open>transformHref\<close> returns what the rule list of the
  specification gives with the base path \<open>/src/pages\<close>: unchanged when it contains
  \<open>.html\<close>, otherwise split at the first \<open>#\<close>, the part before rewritten to
  \<open>/src/pages/index.html\<close> when it is the base path and extended by \<open>.html\<close> when it
  is not, and the hash part appended. The two examples with a hash are instances.
\<close>

theorem transformHref_reference:
  "transformHref href = transform_spec ''/src/pages'' href \<and>
   transformHref ''/src/pages/view-booking#test'' = ''/src/pages/view-booking.html#test'' \<and>
   transformHref ''/src/pages#workshop'' = ''/src/pages/index.html#workshop''"
proof (intro conjI)
  show "transformHref href = transform_spec ''/src/pages'' href"
    by (simp only: transformHref_is_cfg transformHref_cfg_spec)
  show "transformHref ''/src/pages/view-booking#test'' = ''/src/pages/view-booking.html#test''"
    by code_simp
  show "transformHref ''/src/pages#workshop'' = ''/src/pages/index.html#workshop''"
    by code_simp
qed

text \<open>
  C2. \<open>transformHref\<close> is idempotent: every result contains \<open>.html\<close>, so a second
  application takes the first branch and returns its argument. The same holds for
  the configurable variant, whatever the base path.
\<close>

theorem transformHref_idempotent:
  "transformHref (transformHref s) = transformHref s \<and>
   transformHref_cfg base (transformHref_cfg base s) = transformHref_cfg base s"
proof
  have "sublist ''.html'' (transformHref s)"
    by (simp only: transformHref_is_cfg transformHref_cfg_spec transform_spec_has_ext)
  then have "includes_str (transformHref s) ''.html''"
    by (simp only: includes_str_sublist)
  then show "transformHref (transformHref s) = transformHref s"
    by (subst transformHref_def) simp
next
  have "sublist ''.html'' (transformHref_cfg base s)"
    by (simp only: transformHref_cfg_spec transform_spec_has_ext)
  then have "includes_str (transformHref_cfg base s) ''.html''"
    by (simp only: includes_str_sublist)
  then show "transformHref_cfg base (transformHref_cfg base s) = transformHref_cfg base s"
    by (subst transformHref_cfg_def) simp
qed

text \<open>
  C9. The variant that reads the base path from a constant, with the constant set
  to \<open>/src/pages\<close>, returns the same string as the variant of fix-href.js on every
  input.
\<close>

theorem transformHref_variants_agree:
  "transformHref_cfg ''/src/pages'' href = transformHref href"
  by (simp add: transformHref_def transformHref_cfg_def Let_def)

section \<open>Properties of the slider\<close>

lemma js_rem_nonneg: "0 \<le> a \<Longrightarrow> 0 < b \<Longrightarrow> js_rem (Num a) (Num b) = Num (a mod b)"
  by (simp add: sgn_if)

lemma item_length_cong: "length xs = length ys \<Longrightarrow> item xs n = item ys n"
  by (cases n) simp_all

lemma item_map: "item (map f xs) n = item xs n"
  by (rule item_length_cong) simp

lemma item_bound: "item xs n = Some k \<Longrightarrow> k < length xs"
  by (cases n) (auto split: if_splits)

lemma showSlide_idle:
  "\<not> isTransitioning s \<Longrightarrow> item (slides s) index = Some i \<Longrightarrow>
   showSlide index s = Returns (shown s index i)"
proof -
  assume idle: "\<not> isTransitioning s" and it: "item (slides s) index = Some i"
  from it have "i < length (slides s)" by (rule item_bound)
  with idle it show ?thesis
    by (simp add: showSlide_def shown_def hide_all_def disableButtons_def setTimeout_def Let_def item_map)
qed

lemma showSlide_locked: "isTransitioning s \<Longrightarrow> showSlide index s = Returns s"
  by (simp add: showSlide_def)

lemma showSlide_bad: "\<not> isTransitioning s \<Longrightarrow> item (slides s) index = None \<Longrightarrow>
   \<exists>s'. showSlide index s = Throws TypeError s' \<and> isTransitioning s' \<and> currentSlide s' = currentSlide s \<and> timers s' = timers s"
  by (simp add: showSlide_def disableButtons_def Let_def item_map)

lemma nextSlide_idle:
  "index_in_range s \<Longrightarrow> totalSlides s = length (slides s) \<Longrightarrow> \<not> isTransitioning s \<Longrightarrow>
   currentSlide s = Num c \<Longrightarrow>
   nextSlide s = Returns (shown s (Num ((c + 1) mod int (totalSlides s))) (nat ((c + 1) mod int (totalSlides s))))"
  by (auto simp add: nextSlide_def index_in_range_def js_rem_nonneg showSlide_idle Let_def)

lemma prevSlide_idle:
  assumes "index_in_range s" "totalSlides s = length (slides s)" "\<not> isTransitioning s"
    "currentSlide s = Num c"
  shows "prevSlide s = Returns (shown s (Num ((c - 1 + int (totalSlides s)) mod int (totalSlides s)))
                                 (nat ((c - 1 + int (totalSlides s)) mod int (totalSlides s))))"
proof -
  let ?n = "int (totalSlides s)"
  from assms have c: "0 \<le> c" "c < ?n" by (simp_all add: index_in_range_def)
  then have r: "js_rem (Num (c - 1 + ?n)) (Num ?n) = Num ((c - 1 + ?n) mod ?n)"
    by (intro js_rem_nonneg) simp_all
  have "item (slides s) (Num ((c - 1 + ?n) mod ?n)) = Some (nat ((c - 1 + ?n) mod ?n))"
  proof -
    from c have "0 < ?n" by linarith
    then have "0 \<le> (c - 1 + ?n) mod ?n" "(c - 1 + ?n) mod ?n < ?n"
      by (rule pos_mod_sign, rule pos_mod_bound)
    with assms(2) show ?thesis by simp
  qed
  with assms(3) have "showSlide (Num ((c - 1 + ?n) mod ?n)) s = Returns (shown s (Num ((c - 1 + ?n) mod ?n))
                                 (nat ((c - 1 + ?n) mod ?n)))"
    by (rule showSlide_idle)
  with r assms(4) show ?thesis
    by (simp add: prevSlide_def Let_def)
qed

lemma shown_fields [simp]:
  "isTransitioning (shown s n i)" "currentSlide (shown s n i) = n"
  "timers (shown s n i) = timers s @ [\<lparr>tid = nextTimerId s, due = now s + clickDelay s, period = None, cb = ReleaseLock\<rparr>]"
  "nextTimerId (shown s n i) = Suc (nextTimerId s)" "now (shown s n i) = now s"
  "totalSlides (shown s n i) = totalSlides s" "autoplayInterval (shown s n i) = autoplayInterval s"
  "autoplayDelay (shown s n i) = autoplayDelay s" "clickDelay (shown s n i) = clickDelay s"
  "fired (shown s n i) = fired s" "uncaught (shown s n i) = uncaught s"
  "length (slides (shown s n i)) = length (slides s)"
  by (simp_all add: shown_def hide_all_def)

lemma inv_shown:
  assumes "slider_inv s" "\<not> isTransitioning s" "0 \<le> i" "i < int (totalSlides s)"
  shows "slider_inv (shown s (Num i) k)"
proof (cases "timers s")
  case Nil
  with assms show ?thesis
    by (auto simp add: slider_inv_def index_in_range_def release_ok_def)
next
  case (Cons t ts)
  note c1 = this
  show ?thesis
  proof (cases ts)
    case Nil
    with c1 assms show ?thesis
      by (auto simp add: slider_inv_def index_in_range_def release_ok_def autoplay_ok_def)
  next
    case (Cons u us)
    with c1 assms show ?thesis
      by (cases us) (simp_all add: slider_inv_def)
  qed
qed

lemma timers_shape:
  assumes "timers_ok s ts"
  obtains (none) "ts = []"
  | (one) t where "ts = [t]"
  | (two) t u where "ts = [t, u]"
proof (cases ts)
  case Nil
  then show ?thesis by (rule none)
next
  case (Cons t ts1)
  note c1 = this
  show ?thesis
  proof (cases ts1)
    case Nil
    with c1 show ?thesis by (intro one) simp
  next
    case (Cons u ts2)
    note c2 = this
    show ?thesis
    proof (cases ts2)
      case Nil
      with c1 c2 show ?thesis by (intro two) simp
    next
      case (Cons v ts3)
      with c1 c2 assms show ?thesis by simp
    qed
  qed
qed

lemma inv_timers_ok: "slider_inv s \<Longrightarrow> timers_ok s (timers s)"
  by (simp add: slider_inv_def)

lemma inv_pauseAutoplay: "slider_inv s \<Longrightarrow> slider_inv (pauseAutoplay s)"
proof -
  assume i: "slider_inv s"
  then have "timers_ok s (timers s)" by (rule inv_timers_ok)
  then show ?thesis
  proof (cases rule: timers_shape)
    case none
    with i show ?thesis
      by (auto simp add: slider_inv_def pauseAutoplay_def clearInterval_def index_in_range_def split: js_number.splits option.splits)
  next
    case (one t)
    with i show ?thesis
      by (auto simp add: slider_inv_def pauseAutoplay_def clearInterval_def index_in_range_def
          release_ok_def autoplay_ok_def split: if_splits js_number.splits)
  next
    case (two t u)
    with i show ?thesis
      by (auto simp add: slider_inv_def pauseAutoplay_def clearInterval_def index_in_range_def
          release_ok_def autoplay_ok_def split: if_splits js_number.splits)
  qed
qed

lemma inv_startAutoplay: "slider_inv s \<Longrightarrow> slider_inv (startAutoplay s)"
proof -
  assume i: "slider_inv s"
  then have "timers_ok s (timers s)" by (rule inv_timers_ok)
  then show ?thesis
  proof (cases rule: timers_shape)
    case none
    with i show ?thesis
      by (auto simp add: slider_inv_def startAutoplay_def setInterval_def pauseAutoplay_def clearInterval_def index_in_range_def
          release_ok_def autoplay_ok_def split: js_number.splits)
  next
    case (one t)
    with i show ?thesis
      by (auto simp add: slider_inv_def startAutoplay_def setInterval_def pauseAutoplay_def clearInterval_def index_in_range_def
          release_ok_def autoplay_ok_def split: if_splits js_number.splits)
  next
    case (two t u)
    with i show ?thesis
      by (auto simp add: slider_inv_def startAutoplay_def setInterval_def pauseAutoplay_def clearInterval_def index_in_range_def
          release_ok_def autoplay_ok_def split: if_splits js_number.splits)
  qed
qed

lemmas tick_defs = tick_def fire_def run_callback_def settle_def enableButtons_def Let_def

lemma inv_locked_shape:
  assumes "slider_inv s" "isTransitioning s"
  obtains (r) r where "timers s = [r]" "release_ok s r" "autoplayInterval s = None"
  | (ar) a r where "timers s = [a, r]" "release_ok s r" "autoplay_ok s a" "tid a \<noteq> tid r"
  | (ra) r a where "timers s = [r, a]" "release_ok s r" "autoplay_ok s a" "tid a \<noteq> tid r" "due r < due a"
proof -
  from assms(1) have "timers_ok s (timers s)" by (rule inv_timers_ok)
  then show ?thesis
  proof (cases rule: timers_shape)
    case none
    with assms show ?thesis by (simp add: slider_inv_def)
  next
    case (one t)
    with assms show ?thesis by (intro r[of t]) (simp_all add: slider_inv_def)
  next
    case (two t u)
    with assms have d: "(autoplay_ok s t \<and> release_ok s u) \<or> (release_ok s t \<and> autoplay_ok s u \<and> due t < due u)"
      and ne: "tid t \<noteq> tid u"
      by (simp_all add: slider_inv_def)
    from d show ?thesis
    proof
      assume "autoplay_ok s t \<and> release_ok s u"
      with two ne show ?thesis by (intro ar[of t u]) simp_all
    next
      assume "release_ok s t \<and> autoplay_ok s u \<and> due t < due u"
      with two ne show ?thesis by (intro ra[of t u]) simp_all
    qed
  qed
qed

lemma inv_idle_shape:
  assumes "slider_inv s" "\<not> isTransitioning s"
  obtains (none) "timers s = []" "autoplayInterval s = None"
  | (a) a where "timers s = [a]" "autoplay_ok s a"
proof -
  from assms(1) have "timers_ok s (timers s)" by (rule inv_timers_ok)
  then show ?thesis
  proof (cases rule: timers_shape)
    case none
    with assms show ?thesis by (intro that(1)) (simp_all add: slider_inv_def)
  next
    case (one t)
    with assms show ?thesis by (intro a[of t]) (simp_all add: slider_inv_def)
  next
    case (two t u)
    with assms show ?thesis by (simp add: slider_inv_def)
  qed
qed

lemma tick_locked_hold:
  assumes "slider_inv s" "isTransitioning s" "release_timers s = [r]" "Suc (now s) < due r"
  shows "slider_inv (tick s) \<and> isTransitioning (tick s) \<and> release_timers (tick s) = [r] \<and>
         currentSlide (tick s) = currentSlide s \<and> slides (tick s) = slides s \<and>
         now (tick s) = Suc (now s) \<and> clickDelay (tick s) = clickDelay s \<and>
         autoplayDelay (tick s) = autoplayDelay s \<and> totalSlides (tick s) = totalSlides s"
  using assms(1,2)
proof (cases rule: inv_locked_shape)
  case (r r')
  with assms show ?thesis
    by (auto simp add: tick_defs release_timers_def slider_inv_def release_ok_def index_in_range_def split: js_number.splits)
next
  case (ar a r')
  with assms show ?thesis
    by (auto simp add: tick_defs release_timers_def slider_inv_def release_ok_def autoplay_ok_def index_in_range_def split: js_number.splits)
next
  case (ra r' a)
  with assms show ?thesis
    by (auto simp add: tick_defs release_timers_def slider_inv_def release_ok_def autoplay_ok_def index_in_range_def split: js_number.splits)
qed

lemma tick_quiet:
  "\<forall>t \<in> set (timers s). Suc (now s) < due t \<Longrightarrow> tick s = s\<lparr>now := Suc (now s)\<rparr>"
proof -
  assume q: "\<forall>t \<in> set (timers s). Suc (now s) < due t"
  then have "filter (\<lambda>t. due t \<le> Suc (now s)) (timers s) = []"
    by (auto simp add: filter_empty_conv)
  then show ?thesis by (simp add: tick_def)
qed

lemma elapse_quiet:
  "\<forall>t \<in> set (timers s). now s + k < due t \<Longrightarrow> elapse k s = s\<lparr>now := now s + k\<rparr>"
proof (induction k arbitrary: s)
  case 0
  then show ?case by simp
next
  case (Suc k)
  then have "tick s = s\<lparr>now := Suc (now s)\<rparr>" by (intro tick_quiet) auto
  moreover have "elapse k (s\<lparr>now := Suc (now s)\<rparr>) = (s\<lparr>now := Suc (now s)\<rparr>)\<lparr>now := now (s\<lparr>now := Suc (now s)\<rparr>) + k\<rparr>"
    using Suc.prems by (intro Suc.IH) auto
  ultimately show ?case by simp
qed

lemma elapse_Suc_right: "elapse (Suc n) s = tick (elapse n s)"
  by (induction n arbitrary: s) simp_all

lemma tick_release:
  assumes "slider_inv s" "isTransitioning s" "release_timers s = [r]" "due r = Suc (now s)"
  shows "slider_inv (tick s) \<and> \<not> isTransitioning (tick s) \<and> release_timers (tick s) = [] \<and>
         currentSlide (tick s) = currentSlide s \<and> slides (tick s) = slides s \<and>
         now (tick s) = Suc (now s) \<and> clickDelay (tick s) = clickDelay s \<and>
         autoplayDelay (tick s) = autoplayDelay s \<and> totalSlides (tick s) = totalSlides s"
  using assms(1,2)
proof (cases rule: inv_locked_shape)
  case (r r')
  with assms show ?thesis
    by (auto simp add: tick_defs release_timers_def slider_inv_def release_ok_def index_in_range_def split: js_number.splits)
next
  case (ar a r')
  with assms show ?thesis
    by (auto simp add: tick_defs release_timers_def slider_inv_def release_ok_def autoplay_ok_def index_in_range_def split: js_number.splits)
next
  case (ra r' a)
  with assms show ?thesis
    by (auto simp add: tick_defs release_timers_def slider_inv_def release_ok_def autoplay_ok_def index_in_range_def split: js_number.splits)
qed

lemma tick_idle_autoplay:
  assumes "slider_inv s" "\<not> isTransitioning s" "autoplay_timers s = [a]" "due a = Suc (now s)"
  shows "tick s = settle (nextSlide (rearmed s a))"
  using assms(1,2)
proof (cases rule: inv_idle_shape)
  case none
  with assms show ?thesis by (simp add: autoplay_timers_def)
next
  case (a a')
  with assms show ?thesis
    by (auto simp add: tick_def fire_def run_callback_def Let_def rearmed_def autoplay_timers_def autoplay_ok_def)
qed

lemma inv_locked_release:
  assumes "slider_inv s" "isTransitioning s"
  obtains r where "release_timers s = [r]" "now s < due r" "due r \<le> now s + clickDelay s"
  using assms(1,2)
proof (cases rule: inv_locked_shape)
  case (r r')
  then show ?thesis by (intro that[of r']) (simp_all add: release_timers_def release_ok_def)
next
  case (ar a r')
  then show ?thesis by (intro that[of r']) (simp_all add: release_timers_def release_ok_def autoplay_ok_def)
next
  case (ra r' a)
  then show ?thesis by (intro that[of r']) (simp_all add: release_timers_def release_ok_def autoplay_ok_def)
qed

lemma inv_idle_release: "slider_inv s \<Longrightarrow> \<not> isTransitioning s \<Longrightarrow> release_timers s = []"
  by (erule inv_idle_shape) (simp_all add: release_timers_def autoplay_ok_def)

lemma inv_rearmed:
  assumes "slider_inv s" "\<not> isTransitioning s" "autoplay_timers s = [a]"
  shows "slider_inv (rearmed s a)"
  using assms(1,2)
proof (cases rule: inv_idle_shape)
  case none
  with assms show ?thesis by (simp add: autoplay_timers_def)
next
  case (a a')
  with assms show ?thesis
    by (auto simp add: rearmed_def slider_inv_def autoplay_timers_def autoplay_ok_def index_in_range_def split: js_number.splits)
qed

lemma rearmed_fields [simp]:
  "isTransitioning (rearmed s a) = isTransitioning s" "currentSlide (rearmed s a) = currentSlide s"
  "totalSlides (rearmed s a) = totalSlides s" "slides (rearmed s a) = slides s"
  "now (rearmed s a) = Suc (now s)" "fired (rearmed s a) = fired s @ [AutoplayTick]"
  "clickDelay (rearmed s a) = clickDelay s" "autoplayDelay (rearmed s a) = autoplayDelay s"
  "timers (rearmed s a) = [a\<lparr>due := Suc (now s) + autoplayDelay s\<rparr>]"
  "nextTimerId (rearmed s a) = nextTimerId s" "autoplayInterval (rearmed s a) = autoplayInterval s"
  "uncaught (rearmed s a) = uncaught s"
  by (simp_all add: rearmed_def)

lemma inv_fields:
  assumes "slider_inv s"
  shows "totalSlides s = length (slides s)" "0 < totalSlides s" "index_in_range s"
    "0 < clickDelay s" "clickDelay s < autoplayDelay s" "uncaught s = []"
  using assms by (auto simp add: slider_inv_def)

lemma index_in_range_Num:
  "index_in_range s \<Longrightarrow> \<exists>c. currentSlide s = Num c \<and> 0 \<le> c \<and> c < int (totalSlides s)"
  by (cases "currentSlide s") (simp_all add: index_in_range_def)

lemma tick_idle_autoplay_shown:
  assumes "slider_inv s" "\<not> isTransitioning s" "autoplay_timers s = [a]" "due a = Suc (now s)"
    "currentSlide s = Num c"
  shows "tick s = shown (rearmed s a) (Num ((c + 1) mod int (totalSlides s)))
                        (nat ((c + 1) mod int (totalSlides s)))"
proof -
  have i: "slider_inv (rearmed s a)" using assms(1-3) by (rule inv_rearmed)
  have "nextSlide (rearmed s a) =
        Returns (shown (rearmed s a) (Num ((c + 1) mod int (totalSlides (rearmed s a))))
                       (nat ((c + 1) mod int (totalSlides (rearmed s a)))))"
    using inv_fields(3,1)[OF i] assms(2,5) by (intro nextSlide_idle) simp_all
  with tick_idle_autoplay[OF assms(1-4)] show ?thesis by (simp add: settle_def)
qed

lemma inv_tick: "slider_inv s \<Longrightarrow> slider_inv (tick s)"
proof (cases "isTransitioning s")
  case True
  assume i: "slider_inv s"
  from i True obtain r where r: "release_timers s = [r]" "now s < due r"
    by (rule inv_locked_release)
  show ?thesis
  proof (cases "due r = Suc (now s)")
    case True
    with i \<open>isTransitioning s\<close> r show ?thesis using tick_release by blast
  next
    case False
    with r have "Suc (now s) < due r" by simp
    with i \<open>isTransitioning s\<close> r show ?thesis using tick_locked_hold by blast
  qed
next
  case False
  assume i: "slider_inv s"
  from i False show ?thesis
  proof (cases rule: inv_idle_shape)
    case none
    then have "tick s = s\<lparr>now := Suc (now s)\<rparr>" by (intro tick_quiet) simp
    with i none False show ?thesis by (auto simp add: slider_inv_def index_in_range_def split: js_number.splits)
  next
    case (a a)
    show ?thesis
    proof (cases "due a = Suc (now s)")
      case True
      from a have at: "autoplay_timers s = [a]" by (simp add: autoplay_timers_def autoplay_ok_def)
      from inv_fields(3)[OF i] obtain c where c: "currentSlide s = Num c" "0 \<le> c" "c < int (totalSlides s)"
        using index_in_range_Num by blast
      have t: "tick s = shown (rearmed s a) (Num ((c + 1) mod int (totalSlides s)))
                        (nat ((c + 1) mod int (totalSlides s)))"
        using i False at True c(1) by (rule tick_idle_autoplay_shown)
      have "slider_inv (rearmed s a)" using i False at by (rule inv_rearmed)
      then have "slider_inv (shown (rearmed s a) (Num ((c + 1) mod int (totalSlides s)))
                        (nat ((c + 1) mod int (totalSlides s))))"
        using False inv_fields(2)[OF i] by (intro inv_shown) simp_all
      with t show ?thesis by simp
    next
      case False
      with a have "tick s = s\<lparr>now := Suc (now s)\<rparr>"
        by (intro tick_quiet) (simp add: autoplay_ok_def)
      with i a False \<open>\<not> isTransitioning s\<close> show ?thesis
        by (auto simp add: slider_inv_def index_in_range_def autoplay_ok_def split: js_number.splits)
    qed
  qed
qed

lemma inv_elapse: "slider_inv s \<Longrightarrow> slider_inv (elapse n s)"
  by (induction n arbitrary: s) (simp_all add: inv_tick)

lemma elapse_locked_hold:
  "slider_inv s \<Longrightarrow> isTransitioning s \<Longrightarrow> release_timers s = [r] \<Longrightarrow> now s + k < due r \<Longrightarrow>
   slider_inv (elapse k s) \<and> isTransitioning (elapse k s) \<and> release_timers (elapse k s) = [r] \<and>
   currentSlide (elapse k s) = currentSlide s \<and> slides (elapse k s) = slides s \<and>
   now (elapse k s) = now s + k \<and> clickDelay (elapse k s) = clickDelay s \<and>
   autoplayDelay (elapse k s) = autoplayDelay s \<and> totalSlides (elapse k s) = totalSlides s"
proof (induction k arbitrary: s)
  case 0
  then show ?case by simp
next
  case (Suc k)
  from Suc.prems have h: "slider_inv (tick s) \<and> isTransitioning (tick s) \<and> release_timers (tick s) = [r] \<and>
         currentSlide (tick s) = currentSlide s \<and> slides (tick s) = slides s \<and>
         now (tick s) = Suc (now s) \<and> clickDelay (tick s) = clickDelay s \<and>
         autoplayDelay (tick s) = autoplayDelay s \<and> totalSlides (tick s) = totalSlides s"
    by (intro tick_locked_hold) simp_all
  with Suc.prems have "now (tick s) + k < due r" by simp
  with h have "slider_inv (elapse k (tick s)) \<and> isTransitioning (elapse k (tick s)) \<and>
     release_timers (elapse k (tick s)) = [r] \<and>
     currentSlide (elapse k (tick s)) = currentSlide (tick s) \<and>
     slides (elapse k (tick s)) = slides (tick s) \<and>
     now (elapse k (tick s)) = now (tick s) + k \<and>
     clickDelay (elapse k (tick s)) = clickDelay (tick s) \<and>
     autoplayDelay (elapse k (tick s)) = autoplayDelay (tick s) \<and>
     totalSlides (elapse k (tick s)) = totalSlides (tick s)"
    by (intro Suc.IH) simp_all
  with h show ?case by simp
qed

lemma elapse_until_release:
  assumes "slider_inv s" "isTransitioning s" "release_timers s = [r]" "due r = now s + Suc k"
  shows "slider_inv (elapse (Suc k) s) \<and> \<not> isTransitioning (elapse (Suc k) s) \<and>
         currentSlide (elapse (Suc k) s) = currentSlide s \<and> slides (elapse (Suc k) s) = slides s \<and>
         now (elapse (Suc k) s) = now s + Suc k \<and> totalSlides (elapse (Suc k) s) = totalSlides s \<and>
         clickDelay (elapse (Suc k) s) = clickDelay s \<and> autoplayDelay (elapse (Suc k) s) = autoplayDelay s"
proof -
  let ?m = "elapse k s"
  from assms have h: "slider_inv ?m \<and> isTransitioning ?m \<and> release_timers ?m = [r] \<and>
   currentSlide ?m = currentSlide s \<and> slides ?m = slides s \<and>
   now ?m = now s + k \<and> clickDelay ?m = clickDelay s \<and>
   autoplayDelay ?m = autoplayDelay s \<and> totalSlides ?m = totalSlides s"
    by (intro elapse_locked_hold) simp_all
  with assms(4) have "due r = Suc (now ?m)" by simp
  with h have "slider_inv (tick ?m) \<and> \<not> isTransitioning (tick ?m) \<and> release_timers (tick ?m) = [] \<and>
         currentSlide (tick ?m) = currentSlide ?m \<and> slides (tick ?m) = slides ?m \<and>
         now (tick ?m) = Suc (now ?m) \<and> clickDelay (tick ?m) = clickDelay ?m \<and>
         autoplayDelay (tick ?m) = autoplayDelay ?m \<and> totalSlides (tick ?m) = totalSlides ?m"
    by (intro tick_release) simp_all
  with h show ?thesis by (simp add: elapse_Suc_right del: elapse.simps)
qed

lemma shown_release_timers:
  "release_timers s = [] \<Longrightarrow>
   release_timers (shown s n i) = [\<lparr>tid = nextTimerId s, due = now s + clickDelay s, period = None, cb = ReleaseLock\<rparr>]"
  by (simp add: release_timers_def)

lemma settle_delay_releases:
  assumes "slider_inv s" "\<not> isTransitioning s" "0 \<le> i" "i < int (totalSlides s)"
  shows "slider_inv (elapse (clickDelay s) (shown s (Num i) (nat i))) \<and>
         \<not> isTransitioning (elapse (clickDelay s) (shown s (Num i) (nat i))) \<and>
         currentSlide (elapse (clickDelay s) (shown s (Num i) (nat i))) = Num i \<and>
         totalSlides (elapse (clickDelay s) (shown s (Num i) (nat i))) = totalSlides s \<and>
         now (elapse (clickDelay s) (shown s (Num i) (nat i))) = now s + clickDelay s \<and>
         clickDelay (elapse (clickDelay s) (shown s (Num i) (nat i))) = clickDelay s \<and>
         autoplayDelay (elapse (clickDelay s) (shown s (Num i) (nat i))) = autoplayDelay s"
proof -
  let ?s1 = "shown s (Num i) (nat i)"
  let ?r = "\<lparr>tid = nextTimerId s, due = now s + clickDelay s, period = None, cb = ReleaseLock\<rparr>"
  have i1: "slider_inv ?s1" using assms by (rule inv_shown)
  have r: "release_timers ?s1 = [?r]"
    using inv_idle_release[OF assms(1,2)] by (rule shown_release_timers)
  from inv_fields(4)[OF assms(1)] obtain k where k: "clickDelay s = Suc k"
    by (cases "clickDelay s") simp_all
  have "slider_inv (elapse (Suc k) ?s1) \<and> \<not> isTransitioning (elapse (Suc k) ?s1) \<and>
         currentSlide (elapse (Suc k) ?s1) = currentSlide ?s1 \<and> slides (elapse (Suc k) ?s1) = slides ?s1 \<and>
         now (elapse (Suc k) ?s1) = now ?s1 + Suc k \<and> totalSlides (elapse (Suc k) ?s1) = totalSlides ?s1 \<and>
         clickDelay (elapse (Suc k) ?s1) = clickDelay ?s1 \<and> autoplayDelay (elapse (Suc k) ?s1) = autoplayDelay ?s1"
    using i1 _ r by (rule elapse_until_release) (simp_all add: k)
  then show ?thesis by (simp add: k del: elapse.simps)
qed

lemma settle_delay_holds:
  assumes "slider_inv s" "\<not> isTransitioning s" "0 \<le> i" "i < int (totalSlides s)" "k < clickDelay s"
  shows "slider_inv (elapse k (shown s (Num i) (nat i))) \<and>
         isTransitioning (elapse k (shown s (Num i) (nat i))) \<and>
         currentSlide (elapse k (shown s (Num i) (nat i))) = Num i"
proof -
  let ?s1 = "shown s (Num i) (nat i)"
  let ?r = "\<lparr>tid = nextTimerId s, due = now s + clickDelay s, period = None, cb = ReleaseLock\<rparr>"
  have i1: "slider_inv ?s1" using assms(1-4) by (rule inv_shown)
  have r: "release_timers ?s1 = [?r]"
    using inv_idle_release[OF assms(1,2)] by (rule shown_release_timers)
  have "slider_inv (elapse k ?s1) \<and> isTransitioning (elapse k ?s1) \<and> release_timers (elapse k ?s1) = [?r] \<and>
   currentSlide (elapse k ?s1) = currentSlide ?s1 \<and> slides (elapse k ?s1) = slides ?s1 \<and>
   now (elapse k ?s1) = now ?s1 + k \<and> clickDelay (elapse k ?s1) = clickDelay ?s1 \<and>
   autoplayDelay (elapse k ?s1) = autoplayDelay ?s1 \<and> totalSlides (elapse k ?s1) = totalSlides ?s1"
    using i1 _ r by (rule elapse_locked_hold) (simp_all add: assms(5))
  then show ?thesis by simp
qed

lemma inv_lock_left:
  assumes "slider_inv s"
  shows "(isTransitioning s \<longleftrightarrow> 0 < lock_left s) \<and> lock_left s \<le> clickDelay s"
proof (cases "isTransitioning s")
  case True
  with assms obtain r where "release_timers s = [r]" "now s < due r" "due r \<le> now s + clickDelay s"
    by (rule inv_locked_release)
  with True show ?thesis by (simp add: lock_left_def)
next
  case False
  with assms have "release_timers s = []" by (rule inv_idle_release)
  with False show ?thesis by (simp add: lock_left_def)
qed

lemma tick_autoplay_quiet:
  assumes "slider_inv s" "autoplay_timers s = [a]" "Suc (now s) < due a"
  shows "slider_inv (tick s) \<and> autoplay_timers (tick s) = [a] \<and> currentSlide (tick s) = currentSlide s \<and>
         totalSlides (tick s) = totalSlides s \<and> autoplayDelay (tick s) = autoplayDelay s \<and>
         clickDelay (tick s) = clickDelay s \<and>
         now (tick s) = Suc (now s) \<and> lock_left (tick s) = lock_left s - 1 \<and>
         count_list (fired (tick s)) AutoplayTick = count_list (fired s) AutoplayTick"
proof (cases "isTransitioning s")
  case False
  with assms(1) show ?thesis
  proof (cases rule: inv_idle_shape)
    case none
    with assms show ?thesis by (simp add: autoplay_timers_def)
  next
    case (a a')
    with assms have "tick s = s\<lparr>now := Suc (now s)\<rparr>"
      by (intro tick_quiet) (simp add: autoplay_timers_def autoplay_ok_def)
    moreover have "slider_inv (tick s)" using assms(1) by (rule inv_tick)
    moreover have "release_timers s = []" using assms(1) False by (rule inv_idle_release)
    ultimately show ?thesis using assms(2)
      by (simp add: autoplay_timers_def release_timers_def lock_left_def)
  qed
next
  case True
  have it: "slider_inv (tick s)" using assms(1) by (rule inv_tick)
  from assms(1) True show ?thesis
  proof (cases rule: inv_locked_shape)
    case (r r')
    with assms show ?thesis by (simp add: autoplay_timers_def release_ok_def)
  next
    case (ar a' r')
    with assms it show ?thesis
      by (auto simp add: tick_defs release_timers_def autoplay_timers_def lock_left_def release_ok_def autoplay_ok_def)
  next
    case (ra r' a')
    with assms it show ?thesis
      by (auto simp add: tick_defs release_timers_def autoplay_timers_def lock_left_def release_ok_def autoplay_ok_def)
  qed
qed

lemma elapse_autoplay_quiet:
  "slider_inv s \<Longrightarrow> autoplay_timers s = [a] \<Longrightarrow> now s + k < due a \<Longrightarrow>
   slider_inv (elapse k s) \<and> autoplay_timers (elapse k s) = [a] \<and> currentSlide (elapse k s) = currentSlide s \<and>
   totalSlides (elapse k s) = totalSlides s \<and> autoplayDelay (elapse k s) = autoplayDelay s \<and>
   clickDelay (elapse k s) = clickDelay s \<and>
   now (elapse k s) = now s + k \<and> lock_left (elapse k s) = lock_left s - k \<and>
   count_list (fired (elapse k s)) AutoplayTick = count_list (fired s) AutoplayTick"
proof (induction k arbitrary: s)
  case 0
  then show ?case by simp
next
  case (Suc k)
  from Suc.prems have h: "slider_inv (tick s) \<and> autoplay_timers (tick s) = [a] \<and> currentSlide (tick s) = currentSlide s \<and>
         totalSlides (tick s) = totalSlides s \<and> autoplayDelay (tick s) = autoplayDelay s \<and>
         clickDelay (tick s) = clickDelay s \<and>
         now (tick s) = Suc (now s) \<and> lock_left (tick s) = lock_left s - 1 \<and>
         count_list (fired (tick s)) AutoplayTick = count_list (fired s) AutoplayTick"
    by (intro tick_autoplay_quiet) simp_all
  with Suc.prems have "now (tick s) + k < due a" by simp
  with h have "slider_inv (elapse k (tick s)) \<and> autoplay_timers (elapse k (tick s)) = [a] \<and>
     currentSlide (elapse k (tick s)) = currentSlide (tick s) \<and>
     totalSlides (elapse k (tick s)) = totalSlides (tick s) \<and>
     autoplayDelay (elapse k (tick s)) = autoplayDelay (tick s) \<and>
     clickDelay (elapse k (tick s)) = clickDelay (tick s) \<and>
     now (elapse k (tick s)) = now (tick s) + k \<and>
     lock_left (elapse k (tick s)) = lock_left (tick s) - k \<and>
     count_list (fired (elapse k (tick s))) AutoplayTick = count_list (fired (tick s)) AutoplayTick"
    by (intro Suc.IH) simp_all
  with h show ?case by simp
qed

lemma startAutoplay_fields [simp]:
  "now (startAutoplay s) = now s" "fired (startAutoplay s) = fired s"
  "currentSlide (startAutoplay s) = currentSlide s" "totalSlides (startAutoplay s) = totalSlides s"
  "autoplayDelay (startAutoplay s) = autoplayDelay s" "clickDelay (startAutoplay s) = clickDelay s"
  "isTransitioning (startAutoplay s) = isTransitioning s" "slides (startAutoplay s) = slides s"
  "uncaught (startAutoplay s) = uncaught s"
  by (simp_all add: startAutoplay_def setInterval_def pauseAutoplay_def clearInterval_def
      split: option.splits)

lemma pauseAutoplay_fields [simp]:
  "now (pauseAutoplay s) = now s" "fired (pauseAutoplay s) = fired s"
  "currentSlide (pauseAutoplay s) = currentSlide s" "totalSlides (pauseAutoplay s) = totalSlides s"
  "autoplayDelay (pauseAutoplay s) = autoplayDelay s" "clickDelay (pauseAutoplay s) = clickDelay s"
  "isTransitioning (pauseAutoplay s) = isTransitioning s" "slides (pauseAutoplay s) = slides s"
  "uncaught (pauseAutoplay s) = uncaught s" "nextTimerId (pauseAutoplay s) = nextTimerId s"
  by (simp_all add: pauseAutoplay_def clearInterval_def split: option.splits)

lemma pauseAutoplay_timers:
  assumes "slider_inv s"
  shows "autoplay_timers (pauseAutoplay s) = [] \<and> release_timers (pauseAutoplay s) = release_timers s \<and>
         autoplayInterval (pauseAutoplay s) = None"
proof -
  from assms have "timers_ok s (timers s)" by (rule inv_timers_ok)
  then show ?thesis
  proof (cases rule: timers_shape)
    case none
    with assms show ?thesis
      by (auto simp add: slider_inv_def pauseAutoplay_def clearInterval_def autoplay_timers_def release_timers_def)
  next
    case (one t)
    with assms show ?thesis
      by (auto simp add: slider_inv_def pauseAutoplay_def clearInterval_def autoplay_timers_def release_timers_def
          release_ok_def autoplay_ok_def split: if_splits)
  next
    case (two t u)
    with assms show ?thesis
      by (auto simp add: slider_inv_def pauseAutoplay_def clearInterval_def autoplay_timers_def release_timers_def
          release_ok_def autoplay_ok_def split: if_splits)
  qed
qed

lemma startAutoplay_timers:
  assumes "slider_inv s"
  shows "autoplay_timers (startAutoplay s) =
           [\<lparr>tid = nextTimerId s, due = now s + autoplayDelay s, period = Some (autoplayDelay s),
             cb = AutoplayTick\<rparr>] \<and>
         release_timers (startAutoplay s) = release_timers s \<and>
         autoplayInterval (startAutoplay s) = Some (nextTimerId s) \<and>
         nextTimerId (startAutoplay s) = Suc (nextTimerId s)"
proof -
  have "autoplay_timers (startAutoplay s) =
          autoplay_timers (pauseAutoplay s) @
          [\<lparr>tid = nextTimerId s, due = now s + autoplayDelay s, period = Some (autoplayDelay s),
             cb = AutoplayTick\<rparr>]"
    "release_timers (startAutoplay s) = release_timers (pauseAutoplay s)"
    "autoplayInterval (startAutoplay s) = Some (nextTimerId s)"
    "nextTimerId (startAutoplay s) = Suc (nextTimerId s)"
    by (simp_all add: startAutoplay_def setInterval_def autoplay_timers_def release_timers_def Let_def)
  with pauseAutoplay_timers[OF assms] show ?thesis by simp
qed

lemma autoplay_one_tick:
  assumes "slider_inv s" "autoplay_timers s = [a]" "due a = now s + autoplayDelay s" "currentSlide s = Num c"
  shows "slider_inv (elapse (autoplayDelay s) s) \<and>
         count_list (fired (elapse (autoplayDelay s) s)) AutoplayTick = Suc (count_list (fired s) AutoplayTick) \<and>
         currentSlide (elapse (autoplayDelay s) s) = Num ((c + 1) mod int (totalSlides s)) \<and>
         isTransitioning (elapse (autoplayDelay s) s) \<and>
         now (elapse (autoplayDelay s) s) = now s + autoplayDelay s"
proof -
  from inv_fields(4,5)[OF assms(1)] obtain k where k: "autoplayDelay s = Suc k" "clickDelay s \<le> k"
    by (cases "autoplayDelay s") simp_all
  let ?m = "elapse k s"
  have m: "slider_inv ?m \<and> autoplay_timers ?m = [a] \<and> currentSlide ?m = currentSlide s \<and>
   totalSlides ?m = totalSlides s \<and> autoplayDelay ?m = autoplayDelay s \<and>
   clickDelay ?m = clickDelay s \<and>
   now ?m = now s + k \<and> lock_left ?m = lock_left s - k \<and>
   count_list (fired ?m) AutoplayTick = count_list (fired s) AutoplayTick"
    using assms(1,2) by (rule elapse_autoplay_quiet) (simp add: assms(3) k)
  from inv_lock_left[OF assms(1)] k have "lock_left s - k = 0" by simp
  with m have "lock_left ?m = 0" by simp
  with inv_lock_left[of ?m] m have idle: "\<not> isTransitioning ?m" by simp
  have "due a = Suc (now ?m)" using m assms(3) k by simp
  with m idle assms(4) have t: "tick ?m = shown (rearmed ?m a) (Num ((c + 1) mod int (totalSlides ?m)))
                        (nat ((c + 1) mod int (totalSlides ?m)))"
    by (intro tick_idle_autoplay_shown) simp_all
  have "slider_inv (tick ?m)" using m by (intro inv_tick) simp
  with t m show ?thesis
    by (simp add: k elapse_Suc_right del: elapse.simps)
qed

lemma nextSlide_inv:
  assumes "slider_inv s"
  shows "\<exists>s'. nextSlide s = Returns s' \<and> slider_inv s'"
proof (cases "isTransitioning s")
  case True
  with assms show ?thesis by (simp add: nextSlide_def showSlide_locked)
next
  case False
  from inv_fields(3)[OF assms] obtain c where c: "currentSlide s = Num c"
    using index_in_range_Num by blast
  have "nextSlide s = Returns (shown s (Num ((c + 1) mod int (totalSlides s))) (nat ((c + 1) mod int (totalSlides s))))"
    using inv_fields(3,1)[OF assms] False c by (rule nextSlide_idle)
  moreover have "slider_inv (shown s (Num ((c + 1) mod int (totalSlides s))) (nat ((c + 1) mod int (totalSlides s))))"
    using assms False inv_fields(2)[OF assms] by (intro inv_shown) simp_all
  ultimately show ?thesis by simp
qed

lemma prevSlide_inv:
  assumes "slider_inv s"
  shows "\<exists>s'. prevSlide s = Returns s' \<and> slider_inv s'"
proof (cases "isTransitioning s")
  case True
  with assms show ?thesis by (simp add: prevSlide_def showSlide_locked)
next
  case False
  from inv_fields(3)[OF assms] obtain c where c: "currentSlide s = Num c"
    using index_in_range_Num by blast
  let ?j = "(c - 1 + int (totalSlides s)) mod int (totalSlides s)"
  have "prevSlide s = Returns (shown s (Num ?j) (nat ?j))"
    using inv_fields(3,1)[OF assms] False c by (rule prevSlide_idle)
  moreover have "slider_inv (shown s (Num ?j) (nat ?j))"
    using assms False inv_fields(2)[OF assms] by (intro inv_shown) simp_all
  ultimately show ?thesis by simp
qed

lemma inv_apply_action: "slider_inv s \<Longrightarrow> slider_inv (apply_action a s)"
proof (cases a)
  case Next
  assume "slider_inv s"
  then obtain s' where "nextSlide s = Returns s'" "slider_inv s'" using nextSlide_inv by blast
  with Next show ?thesis by (simp add: settle_def)
next
  case Prev
  assume "slider_inv s"
  then obtain s' where "prevSlide s = Returns s'" "slider_inv s'" using prevSlide_inv by blast
  with Prev show ?thesis by (simp add: settle_def)
qed (simp_all add: inv_startAutoplay inv_pauseAutoplay restartAutoplay_def inv_elapse)

lemma inv_run: "slider_inv s \<Longrightarrow> slider_inv (run acts s)"
  unfolding run_def by (induction acts arbitrary: s) (simp_all add: inv_apply_action)

lemma constructor_initial: "constructor sl p n = Returns (initial sl p n)"
  by (simp add: constructor_def init_def startAutoplay_def pauseAutoplay_def setInterval_def initial_def)

lemma inv_initial: "sl \<noteq> [] \<Longrightarrow> slider_inv (initial sl p n)"
  by (simp add: initial_def slider_inv_def index_in_range_def autoplay_ok_def)

lemma showSlide_totalSlides: "totalSlides (settle (showSlide i s)) = totalSlides s"
  by (simp add: showSlide_def settle_def disableButtons_def setTimeout_def Let_def split: option.splits)

lemma fire_totalSlides: "totalSlides (fire i s) = totalSlides s"
  by (simp add: fire_def run_callback_def nextSlide_def showSlide_totalSlides enableButtons_def
      settle_def[of "Returns _"] Let_def split: option.splits callback.splits)

lemma fold_fire_totalSlides: "totalSlides (fold fire is s) = totalSlides s"
  by (induction "is" arbitrary: s) (simp_all add: fire_totalSlides)

lemma tick_totalSlides: "totalSlides (tick s) = totalSlides s"
  by (simp add: tick_def fold_fire_totalSlides Let_def)

lemma elapse_totalSlides: "totalSlides (elapse k s) = totalSlides s"
  by (induction k arbitrary: s) (simp_all add: tick_totalSlides)

lemma apply_action_totalSlides: "totalSlides (apply_action a s) = totalSlides s"
  by (cases a) (simp_all add: nextSlide_def prevSlide_def showSlide_totalSlides restartAutoplay_def
      elapse_totalSlides)

lemma run_totalSlides: "totalSlides (run acts s) = totalSlides s"
  unfolding run_def by (induction acts arbitrary: s) (simp_all add: apply_action_totalSlides)

lemma set_classList_add: "set (classList_add cl toks) = set cl \<union> set toks"
  unfolding classList_add_def by (induction toks arbitrary: cl) auto

lemma set_classList_remove: "set (classList_remove cl toks) = set cl - set toks"
  by (auto simp add: classList_remove_def)

lemma shown_slide_visible:
  "i < length (slides s) \<Longrightarrow>
   ''opacity-100'' \<in> set (slides (shown s n i) ! i) \<and> ''opacity-0'' \<notin> set (slides (shown s n i) ! i)"
  by (simp add: shown_def hide_all_def set_classList_add set_classList_remove)

lemma shown_slide_hidden:
  "j < length (slides s) \<Longrightarrow> j \<noteq> i \<Longrightarrow>
   ''opacity-0'' \<in> set (slides (shown s n i) ! j) \<and> ''opacity-100'' \<notin> set (slides (shown s n i) ! j)"
  by (simp add: shown_def hide_all_def set_classList_add set_classList_remove)

lemma shown_neq: "\<not> isTransitioning s \<Longrightarrow> shown s n i \<noteq> s"
proof
  assume "\<not> isTransitioning s" "shown s n i = s"
  then have "\<not> isTransitioning (shown s n i)" by simp
  then show False by simp
qed

subsection \<open>Transitions, the lock and the autoplay\<close>

lemma run_locked:
  "isTransitioning s \<Longrightarrow> set acts \<subseteq> {Next, Prev} \<Longrightarrow> run acts s = s"
  unfolding run_def
  by (induction acts) (auto simp add: nextSlide_def prevSlide_def showSlide_locked settle_def)

lemma inv_release_count:
  assumes "slider_inv s"
  shows "length (release_timers s) = (if isTransitioning s then 1 else 0)"
proof (cases "isTransitioning s")
  case True
  with assms obtain r where "release_timers s = [r]" by (rule inv_locked_release)
  with True show ?thesis by simp
next
  case False
  with assms have "release_timers s = []" by (rule inv_idle_release)
  with False show ?thesis by simp
qed

lemma inv_demo: "slider_inv (initial demo_slides p n)"
  by (rule inv_initial) (simp add: demo_slides_def)

text \<open>
  C4. In the transitioning state a call of \<open>showSlide\<close> (with any index), \<open>nextSlide\<close>
  or \<open>prevSlide\<close> returns at once and leaves the whole state as it was, timers
  included, so any sequence of such calls does: the index stays at the target of
  the call that started the transition, and nothing is queued. In every state the
  slider reaches, the pending releases of the lock are one when a transition is in
  flight and none otherwise.
\<close>

theorem transitioning_drops_calls:
  "(isTransitioning s \<longrightarrow>
      showSlide index s = Returns s \<and> nextSlide s = Returns s \<and> prevSlide s = Returns s \<and>
      (set calls \<subseteq> {Next, Prev} \<longrightarrow> run calls s = s)) \<and>
   (slider_inv t \<longrightarrow>
      length (release_timers (run acts t)) = (if isTransitioning (run acts t) then 1 else 0))"
proof (intro conjI impI)
  assume "slider_inv t"
  then have "slider_inv (run acts t)" by (rule inv_run)
  then show "length (release_timers (run acts t)) = (if isTransitioning (run acts t) then 1 else 0)"
    by (rule inv_release_count)
qed (simp_all add: nextSlide_def prevSlide_def showSlide_locked run_locked)

text \<open>
  The instance: three slides, \<open>nextSlide\<close> called on the fresh slider, and a second
  call before the settle delay has passed.
\<close>

theorem transitioning_drops_calls_witness:
  "isTransitioning (shown (initial demo_slides None None) (Num 1) 1) \<and>
   showSlide (Num 2) (shown (initial demo_slides None None) (Num 1) 1) =
     Returns (shown (initial demo_slides None None) (Num 1) 1) \<and>
   nextSlide (shown (initial demo_slides None None) (Num 1) 1) =
     Returns (shown (initial demo_slides None None) (Num 1) 1) \<and>
   prevSlide (shown (initial demo_slides None None) (Num 1) 1) =
     Returns (shown (initial demo_slides None None) (Num 1) 1) \<and>
   run [Next, Prev, Next] (shown (initial demo_slides None None) (Num 1) 1) =
     shown (initial demo_slides None None) (Num 1) 1 \<and>
   currentSlide (run [Next, Next] (initial demo_slides None None)) = Num 1 \<and>
   slider_inv (initial demo_slides None None) \<and>
   length (release_timers (run [Next, Next] (initial demo_slides None None))) =
     (if isTransitioning (run [Next, Next] (initial demo_slides None None)) then 1 else 0)"
proof -
  let ?t = "initial demo_slides None None"
  let ?s = "shown ?t (Num 1) 1"
  have locked: "isTransitioning ?s" by simp
  have calls: "set [Next, Prev, Next] \<subseteq> {Next, Prev}" by simp
  have i: "slider_inv ?t" by (rule inv_demo)
  have n: "nextSlide ?t = Returns ?s"
    by (simp add: nextSlide_def showSlide_idle initial_def demo_slides_def)
  have "run [Next, Next] ?t = run [Next] ?s" by (simp add: run_def n settle_def)
  also have "\<dots> = ?s" using locked by (intro run_locked) simp_all
  finally have "currentSlide (run [Next, Next] ?t) = Num 1" by simp
  with transitioning_drops_calls[of ?s "Num 2" "[Next, Prev, Next]" ?t "[Next, Next]"] locked calls i
  show ?thesis by blast
qed

lemma next_then_settle:
  assumes "slider_inv s" "\<not> isTransitioning s" "currentSlide s = Num c"
  shows "slider_inv (run [Next, Elapse (clickDelay s)] s) \<and>
         \<not> isTransitioning (run [Next, Elapse (clickDelay s)] s) \<and>
         currentSlide (run [Next, Elapse (clickDelay s)] s) = Num ((c + 1) mod int (totalSlides s)) \<and>
         totalSlides (run [Next, Elapse (clickDelay s)] s) = totalSlides s \<and>
         clickDelay (run [Next, Elapse (clickDelay s)] s) = clickDelay s"
proof -
  let ?j = "(c + 1) mod int (totalSlides s)"
  have n: "nextSlide s = Returns (shown s (Num ?j) (nat ?j))"
    using inv_fields(3,1)[OF assms(1)] assms(2,3) by (rule nextSlide_idle)
  have "0 \<le> ?j" "?j < int (totalSlides s)"
    using inv_fields(2)[OF assms(1)] by simp_all
  with assms(1,2) have "slider_inv (elapse (clickDelay s) (shown s (Num ?j) (nat ?j))) \<and>
         \<not> isTransitioning (elapse (clickDelay s) (shown s (Num ?j) (nat ?j))) \<and>
         currentSlide (elapse (clickDelay s) (shown s (Num ?j) (nat ?j))) = Num ?j \<and>
         totalSlides (elapse (clickDelay s) (shown s (Num ?j) (nat ?j))) = totalSlides s \<and>
         now (elapse (clickDelay s) (shown s (Num ?j) (nat ?j))) = now s + clickDelay s \<and>
         clickDelay (elapse (clickDelay s) (shown s (Num ?j) (nat ?j))) = clickDelay s \<and>
         autoplayDelay (elapse (clickDelay s) (shown s (Num ?j) (nat ?j))) = autoplayDelay s"
    by (rule settle_delay_releases)
  then show ?thesis by (simp add: run_def n settle_def)
qed

lemma run_append: "run (xs @ ys) s = run ys (run xs s)"
  by (simp add: run_def)

text \<open>
  C5. With three slides and the index at 0, three calls of \<open>nextSlide\<close>, each made
  when the settle delay of the one before has passed, bring the index back to 0.
  After any transition that \<open>showSlide\<close> starts, the lock is free once the settle
  delay has passed, and a call of \<open>nextSlide\<close> or \<open>prevSlide\<close> made then goes through:
  it moves the index to the neighbour, wrapping around.
\<close>

theorem next_wraps_and_lock_is_released:
  assumes "slider_inv s" "\<not> isTransitioning s" "0 \<le> i" "i < int (totalSlides s)"
  shows "(totalSlides s = 3 \<longrightarrow> currentSlide s = Num 0 \<longrightarrow>
            currentSlide (run [Next, Elapse (clickDelay s), Next, Elapse (clickDelay s), Next] s) = Num 0) \<and>
         (\<exists>s1 s2 s3.
            showSlide (Num i) s = Returns s1 \<and> isTransitioning s1 \<and>
            \<not> isTransitioning (elapse (clickDelay s) s1) \<and>
            currentSlide (elapse (clickDelay s) s1) = Num i \<and>
            nextSlide (elapse (clickDelay s) s1) = Returns s2 \<and>
            currentSlide s2 = Num ((i + 1) mod int (totalSlides s)) \<and>
            prevSlide (elapse (clickDelay s) s1) = Returns s3 \<and>
            currentSlide s3 = Num ((i - 1 + int (totalSlides s)) mod int (totalSlides s)))"
proof (intro conjI impI)
  assume n3: "totalSlides s = 3" and c0: "currentSlide s = Num 0"
  let ?a = "run [Next, Elapse (clickDelay s)] s"
  have a: "slider_inv ?a \<and> \<not> isTransitioning ?a \<and> currentSlide ?a = Num 1 \<and> totalSlides ?a = 3 \<and>
           clickDelay ?a = clickDelay s"
    using next_then_settle[OF assms(1,2) c0] n3 by simp
  let ?b = "run [Next, Elapse (clickDelay s)] ?a"
  have b: "slider_inv ?b \<and> \<not> isTransitioning ?b \<and> currentSlide ?b = Num 2 \<and> totalSlides ?b = 3 \<and>
           clickDelay ?b = clickDelay s"
    using next_then_settle[of ?a 1] a by simp
  have "nextSlide ?b = Returns (shown ?b (Num ((2 + 1) mod int (totalSlides ?b))) (nat ((2 + 1) mod int (totalSlides ?b))))"
    using b inv_fields(3,1)[of ?b] by (intro nextSlide_idle) simp_all
  with b have "currentSlide (run [Next] ?b) = Num 0"
    by (simp add: run_def settle_def)
  moreover have "run [Next, Elapse (clickDelay s), Next, Elapse (clickDelay s), Next] s = run [Next] ?b"
    by (simp add: run_def)
  ultimately show "currentSlide (run [Next, Elapse (clickDelay s), Next, Elapse (clickDelay s), Next] s) = Num 0"
    by simp
next
  let ?s1 = "shown s (Num i) (nat i)"
  let ?e = "elapse (clickDelay s) ?s1"
  have it: "item (slides s) (Num i) = Some (nat i)"
    using assms(3,4) inv_fields(1)[OF assms(1)] by simp
  have s1: "showSlide (Num i) s = Returns ?s1"
    using assms(2) it by (rule showSlide_idle)
  have e: "slider_inv ?e \<and> \<not> isTransitioning ?e \<and> currentSlide ?e = Num i \<and> totalSlides ?e = totalSlides s \<and>
         now ?e = now s + clickDelay s \<and> clickDelay ?e = clickDelay s \<and> autoplayDelay ?e = autoplayDelay s"
    using assms by (rule settle_delay_releases)
  have nx: "nextSlide ?e = Returns (shown ?e (Num ((i + 1) mod int (totalSlides ?e))) (nat ((i + 1) mod int (totalSlides ?e))))"
    using e inv_fields(3,1)[of ?e] by (intro nextSlide_idle) simp_all
  have pv: "prevSlide ?e = Returns (shown ?e (Num ((i - 1 + int (totalSlides ?e)) mod int (totalSlides ?e)))
                                 (nat ((i - 1 + int (totalSlides ?e)) mod int (totalSlides ?e))))"
    using e inv_fields(3,1)[of ?e] by (intro prevSlide_idle) simp_all
  from s1 e nx pv
  show "\<exists>s1 s2 s3.
            showSlide (Num i) s = Returns s1 \<and> isTransitioning s1 \<and>
            \<not> isTransitioning (elapse (clickDelay s) s1) \<and>
            currentSlide (elapse (clickDelay s) s1) = Num i \<and>
            nextSlide (elapse (clickDelay s) s1) = Returns s2 \<and>
            currentSlide s2 = Num ((i + 1) mod int (totalSlides s)) \<and>
            prevSlide (elapse (clickDelay s) s1) = Returns s3 \<and>
            currentSlide s3 = Num ((i - 1 + int (totalSlides s)) mod int (totalSlides s))"
    by simp
qed

text \<open>
  The instance: the fresh slider with three slides, and a transition to slide 1.
  Three settled calls take 1600 ms, less than the first autoplay interval.
\<close>

theorem next_wraps_and_lock_is_released_witness:
  "slider_inv (initial demo_slides None None) \<and>
   \<not> isTransitioning (initial demo_slides None None) \<and>
   (0::int) \<le> 1 \<and> 1 < int (totalSlides (initial demo_slides None None)) \<and>
   totalSlides (initial demo_slides None None) = 3 \<and>
   currentSlide (initial demo_slides None None) = Num 0 \<and>
   currentSlide (run [Next, Elapse 800, Next, Elapse 800, Next] (initial demo_slides None None)) = Num 0 \<and>
   (\<exists>s1 s2 s3.
      showSlide (Num 1) (initial demo_slides None None) = Returns s1 \<and> isTransitioning s1 \<and>
      \<not> isTransitioning (elapse 800 s1) \<and> currentSlide (elapse 800 s1) = Num 1 \<and>
      nextSlide (elapse 800 s1) = Returns s2 \<and> currentSlide s2 = Num 2 \<and>
      prevSlide (elapse 800 s1) = Returns s3 \<and> currentSlide s3 = Num 0)"
proof -
  let ?t = "initial demo_slides None None"
  have i: "slider_inv ?t" by (rule inv_demo)
  have f: "\<not> isTransitioning ?t" "totalSlides ?t = 3" "currentSlide ?t = Num 0" "clickDelay ?t = 800"
    by (simp_all add: initial_def demo_slides_def)
  have b: "(0::int) \<le> 1" "1 < int (totalSlides ?t)" using f by simp_all
  from next_wraps_and_lock_is_released[OF i f(1) b] f i show ?thesis
    by simp
qed

lemma tick_skipped_when_locked: "isTransitioning s \<Longrightarrow> run_callback AutoplayTick s = Returns s"
  by (simp add: run_callback_def)

text \<open>
  C6. \<open>startAutoplay\<close> clears the interval the slider holds before it creates one:
  after one call, and after two calls in a row, exactly one autoplay interval is
  active, due one autoplay delay later. When that delay has passed after the two
  calls, the event loop has run the autoplay callback exactly once more than
  before, and that one run has advanced the index by one slide and started a
  transition. \<open>pauseAutoplay\<close> leaves no autoplay interval. A run of the callback
  during a transition returns with the state as it was.
\<close>

theorem startAutoplay_single_timer:
  assumes "slider_inv s" "currentSlide s = Num c"
  shows "autoplay_timers (startAutoplay s) =
           [\<lparr>tid = nextTimerId s, due = now s + autoplayDelay s,
             period = Some (autoplayDelay s), cb = AutoplayTick\<rparr>] \<and>
         autoplay_timers (startAutoplay (startAutoplay s)) =
           [\<lparr>tid = Suc (nextTimerId s), due = now s + autoplayDelay s,
             period = Some (autoplayDelay s), cb = AutoplayTick\<rparr>] \<and>
         count_list (fired (elapse (autoplayDelay s) (startAutoplay (startAutoplay s)))) AutoplayTick =
           Suc (count_list (fired s) AutoplayTick) \<and>
         currentSlide (elapse (autoplayDelay s) (startAutoplay (startAutoplay s))) =
           Num ((c + 1) mod int (totalSlides s)) \<and>
         isTransitioning (elapse (autoplayDelay s) (startAutoplay (startAutoplay s))) \<and>
         autoplay_timers (pauseAutoplay s) = [] \<and>
         (isTransitioning t \<longrightarrow> run_callback AutoplayTick t = Returns t)"
proof -
  let ?s1 = "startAutoplay s"
  let ?s2 = "startAutoplay ?s1"
  have i1: "slider_inv ?s1" using assms(1) by (rule inv_startAutoplay)
  then have i2: "slider_inv ?s2" by (rule inv_startAutoplay)
  have t1: "autoplay_timers ?s1 =
           [\<lparr>tid = nextTimerId s, due = now s + autoplayDelay s,
             period = Some (autoplayDelay s), cb = AutoplayTick\<rparr>]"
    and n1: "nextTimerId ?s1 = Suc (nextTimerId s)"
    using startAutoplay_timers[OF assms(1)] by simp_all
  have t2: "autoplay_timers ?s2 =
           [\<lparr>tid = Suc (nextTimerId s), due = now s + autoplayDelay s,
             period = Some (autoplayDelay s), cb = AutoplayTick\<rparr>]"
    using startAutoplay_timers[OF i1] n1 by simp
  have "slider_inv (elapse (autoplayDelay ?s2) ?s2) \<and>
         count_list (fired (elapse (autoplayDelay ?s2) ?s2)) AutoplayTick = Suc (count_list (fired ?s2) AutoplayTick) \<and>
         currentSlide (elapse (autoplayDelay ?s2) ?s2) = Num ((c + 1) mod int (totalSlides ?s2)) \<and>
         isTransitioning (elapse (autoplayDelay ?s2) ?s2) \<and>
         now (elapse (autoplayDelay ?s2) ?s2) = now ?s2 + autoplayDelay ?s2"
    using i2 t2 by (rule autoplay_one_tick) (simp_all add: assms(2))
  with t1 t2 pauseAutoplay_timers[OF assms(1)] show ?thesis
    by (simp add: tick_skipped_when_locked)
qed

text \<open>
  The instance: the fresh slider with three slides; the callback is run on the
  state in which a transition to slide 1 has just started.
\<close>

theorem startAutoplay_single_timer_witness:
  "slider_inv (initial demo_slides None None) \<and>
   currentSlide (initial demo_slides None None) = Num 0 \<and>
   autoplay_timers (startAutoplay (startAutoplay (initial demo_slides None None))) =
     [\<lparr>tid = 3, due = 3000, period = Some 3000, cb = AutoplayTick\<rparr>] \<and>
   count_list (fired (elapse 3000 (startAutoplay (startAutoplay (initial demo_slides None None)))))
     AutoplayTick = 1 \<and>
   currentSlide (elapse 3000 (startAutoplay (startAutoplay (initial demo_slides None None)))) = Num 1 \<and>
   isTransitioning (shown (initial demo_slides None None) (Num 1) 1) \<and>
   run_callback AutoplayTick (shown (initial demo_slides None None) (Num 1) 1) =
     Returns (shown (initial demo_slides None None) (Num 1) 1)"
proof -
  let ?t = "initial demo_slides None None"
  have i: "slider_inv ?t" by (rule inv_demo)
  have f: "currentSlide ?t = Num 0" "totalSlides ?t = 3" "autoplayDelay ?t = 3000"
    "nextTimerId ?t = 2" "now ?t = 0" "fired ?t = []"
    by (simp_all add: initial_def demo_slides_def)
  have l: "isTransitioning (shown ?t (Num 1) 1)" by simp
  from startAutoplay_single_timer[OF i f(1), of "shown ?t (Num 1) 1"] f i l show ?thesis
    by (simp del: elapse.simps)
qed

lemma prevSlide_from_first:
  assumes "slider_inv s" "\<not> isTransitioning s" "currentSlide s = Num 0"
  shows "\<exists>s'. prevSlide s = Returns s' \<and> currentSlide s' = Num (int (totalSlides s) - 1)"
proof -
  let ?n = "int (totalSlides s)"
  have "prevSlide s = Returns (shown s (Num ((0 - 1 + ?n) mod ?n)) (nat ((0 - 1 + ?n) mod ?n)))"
    using inv_fields(3,1)[OF assms(1)] assms(2,3) by (rule prevSlide_idle)
  moreover have "(0 - 1 + ?n) mod ?n = ?n - 1"
  proof -
    have "0 \<le> ?n - 1" "?n - 1 < ?n" using inv_fields(2)[OF assms(1)] by simp_all
    then have "(?n - 1) mod ?n = ?n - 1" by (rule mod_pos_pos_trivial)
    moreover have "0 - 1 + ?n = ?n - 1" by simp
    ultimately show ?thesis by (simp only:)
  qed
  ultimately show ?thesis by simp
qed

lemma prev_then_settle:
  assumes "slider_inv s" "\<not> isTransitioning s" "currentSlide s = Num c"
  shows "slider_inv (run [Prev, Elapse (clickDelay s)] s) \<and>
         \<not> isTransitioning (run [Prev, Elapse (clickDelay s)] s) \<and>
         currentSlide (run [Prev, Elapse (clickDelay s)] s) =
           Num ((c - 1 + int (totalSlides s)) mod int (totalSlides s))"
proof -
  let ?j = "(c - 1 + int (totalSlides s)) mod int (totalSlides s)"
  have n: "prevSlide s = Returns (shown s (Num ?j) (nat ?j))"
    using inv_fields(3,1)[OF assms(1)] assms(2,3) by (rule prevSlide_idle)
  have "0 \<le> ?j" "?j < int (totalSlides s)"
    using inv_fields(2)[OF assms(1)] by simp_all
  with assms(1,2) have "slider_inv (elapse (clickDelay s) (shown s (Num ?j) (nat ?j))) \<and>
         \<not> isTransitioning (elapse (clickDelay s) (shown s (Num ?j) (nat ?j))) \<and>
         currentSlide (elapse (clickDelay s) (shown s (Num ?j) (nat ?j))) = Num ?j \<and>
         totalSlides (elapse (clickDelay s) (shown s (Num ?j) (nat ?j))) = totalSlides s \<and>
         now (elapse (clickDelay s) (shown s (Num ?j) (nat ?j))) = now s + clickDelay s \<and>
         clickDelay (elapse (clickDelay s) (shown s (Num ?j) (nat ?j))) = clickDelay s \<and>
         autoplayDelay (elapse (clickDelay s) (shown s (Num ?j) (nat ?j))) = autoplayDelay s"
    by (rule settle_delay_releases)
  then show ?thesis by (simp add: run_def n settle_def)
qed

lemma navigation_wraps:
  assumes "slider_inv s" "currentSlide s = Num c"
  shows "js_rem (js_add (currentSlide s) (Num 1)) (Num (int (totalSlides s))) =
           Num ((c + 1) mod int (totalSlides s)) \<and>
         js_rem (js_add (js_sub (currentSlide s) (Num 1)) (Num (int (totalSlides s))))
                (Num (int (totalSlides s))) =
           Num ((c - 1 + int (totalSlides s)) mod int (totalSlides s)) \<and>
         0 \<le> (c + 1) mod int (totalSlides s) \<and>
         (c + 1) mod int (totalSlides s) < int (totalSlides s) \<and>
         0 \<le> (c - 1 + int (totalSlides s)) mod int (totalSlides s) \<and>
         (c - 1 + int (totalSlides s)) mod int (totalSlides s) < int (totalSlides s) \<and>
         (isTransitioning s \<longrightarrow>
            run [Next] s = s \<and> run [Prev] s = s) \<and>
         (\<not> isTransitioning s \<longrightarrow>
            currentSlide (run [Next] s) = Num ((c + 1) mod int (totalSlides s)) \<and>
            currentSlide (run [Prev] s) = Num ((c - 1 + int (totalSlides s)) mod int (totalSlides s)))"
proof -
  let ?n = "int (totalSlides s)"
  from inv_fields(3)[OF assms(1)] assms(2) have c: "0 \<le> c" "c < ?n"
    by (simp_all add: index_in_range_def)
  then have pos: "0 < ?n" by linarith
  have r1: "js_rem (Num (c + 1)) (Num ?n) = Num ((c + 1) mod ?n)"
    using c pos by (intro js_rem_nonneg) simp_all
  have r2: "js_rem (Num (c - 1 + ?n)) (Num ?n) = Num ((c - 1 + ?n) mod ?n)"
    using c pos by (intro js_rem_nonneg) simp_all
  have b: "0 \<le> (c + 1) mod ?n" "(c + 1) mod ?n < ?n"
    "0 \<le> (c - 1 + ?n) mod ?n" "(c - 1 + ?n) mod ?n < ?n"
    using pos by (simp_all only: pos_mod_sign pos_mod_bound)
  have locked: "isTransitioning s \<longrightarrow> run [Next] s = s \<and> run [Prev] s = s"
    by (simp add: run_locked)
  have idle: "\<not> isTransitioning s \<longrightarrow>
            currentSlide (run [Next] s) = Num ((c + 1) mod ?n) \<and>
            currentSlide (run [Prev] s) = Num ((c - 1 + ?n) mod ?n)"
  proof
    assume i: "\<not> isTransitioning s"
    have "nextSlide s = Returns (shown s (Num ((c + 1) mod ?n)) (nat ((c + 1) mod ?n)))"
      using inv_fields(3,1)[OF assms(1)] i assms(2) by (rule nextSlide_idle)
    moreover have "prevSlide s = Returns (shown s (Num ((c - 1 + ?n) mod ?n)) (nat ((c - 1 + ?n) mod ?n)))"
      using inv_fields(3,1)[OF assms(1)] i assms(2) by (rule prevSlide_idle)
    ultimately show "currentSlide (run [Next] s) = Num ((c + 1) mod ?n) \<and>
            currentSlide (run [Prev] s) = Num ((c - 1 + ?n) mod ?n)"
      by (simp add: run_def settle_def)
  qed
  from r1 r2 b locked idle assms(2) show ?thesis by simp
qed

text \<open>
  C7. A slider constructed on at least one slide starts with the index at 0, and
  after any sequence of calls of \<open>nextSlide\<close>, \<open>prevSlide\<close>, \<open>startAutoplay\<close>,
  \<open>pauseAutoplay\<close>, \<open>restartAutoplay\<close> and any passing of time (with the timer
  callbacks it runs) the index is an integer from 0 up to, and not including, the
  number of slides \<open>N\<close>. In every such state, at index \<open>c\<close>, the index \<open>nextSlide\<close>
  computes is \<open>(c + 1) mod N\<close> and the one \<open>prevSlide\<close> computes is
  \<open>(c - 1 + N) mod N\<close>, both in range. Outside a transition the call moves the index
  there, so \<open>nextSlide\<close> at the last slide wraps to 0 and \<open>prevSlide\<close> at 0 wraps to
  the last slide; during a transition the call leaves the state as it was.
\<close>

theorem index_stays_in_range:
  assumes "sl \<noteq> []"
  shows "constructor sl p n = Returns (initial sl p n) \<and>
         currentSlide (initial sl p n) = Num 0 \<and>
         index_in_range (run acts (initial sl p n)) \<and>
         totalSlides (run acts (initial sl p n)) = length sl \<and>
         (\<not> isTransitioning (run acts (initial sl p n)) \<longrightarrow>
          currentSlide (run acts (initial sl p n)) = Num 0 \<longrightarrow>
          currentSlide (run (acts @ [Prev]) (initial sl p n)) = Num (int (length sl) - 1)) \<and>
         (currentSlide (run acts (initial sl p n)) = Num c \<longrightarrow>
          js_rem (js_add (currentSlide (run acts (initial sl p n))) (Num 1))
                 (Num (int (totalSlides (run acts (initial sl p n))))) =
            Num ((c + 1) mod int (length sl)) \<and>
          js_rem (js_add (js_sub (currentSlide (run acts (initial sl p n))) (Num 1))
                         (Num (int (totalSlides (run acts (initial sl p n))))))
                 (Num (int (totalSlides (run acts (initial sl p n))))) =
            Num ((c - 1 + int (length sl)) mod int (length sl)) \<and>
          0 \<le> (c + 1) mod int (length sl) \<and> (c + 1) mod int (length sl) < int (length sl) \<and>
          0 \<le> (c - 1 + int (length sl)) mod int (length sl) \<and>
          (c - 1 + int (length sl)) mod int (length sl) < int (length sl) \<and>
          (isTransitioning (run acts (initial sl p n)) \<longrightarrow>
             run (acts @ [Next]) (initial sl p n) = run acts (initial sl p n) \<and>
             run (acts @ [Prev]) (initial sl p n) = run acts (initial sl p n)) \<and>
          (\<not> isTransitioning (run acts (initial sl p n)) \<longrightarrow>
             currentSlide (run (acts @ [Next]) (initial sl p n)) = Num ((c + 1) mod int (length sl)) \<and>
             currentSlide (run (acts @ [Prev]) (initial sl p n)) =
               Num ((c - 1 + int (length sl)) mod int (length sl)) \<and>
             (c = int (length sl) - 1 \<longrightarrow>
                currentSlide (run (acts @ [Next]) (initial sl p n)) = Num 0)))"
proof (intro conjI impI)
  let ?r = "run acts (initial sl p n)"
  have i: "slider_inv ?r" using assms by (intro inv_run inv_initial)
  show "constructor sl p n = Returns (initial sl p n)" by (rule constructor_initial)
  show "currentSlide (initial sl p n) = Num 0" by (simp add: initial_def)
  show "index_in_range ?r" using i by (rule inv_fields)
  show n: "totalSlides ?r = length sl" by (simp add: run_totalSlides initial_def)
  {
    assume "\<not> isTransitioning ?r" "currentSlide ?r = Num 0"
    with i obtain s' where "prevSlide ?r = Returns s'" "currentSlide s' = Num (int (totalSlides ?r) - 1)"
      using prevSlide_from_first by blast
    with n show "currentSlide (run (acts @ [Prev]) (initial sl p n)) = Num (int (length sl) - 1)"
      by (simp add: run_append run_def settle_def)
  }
  assume c: "currentSlide ?r = Num c"
  note w = navigation_wraps[OF i c, unfolded n]
  from w show "js_rem (js_add (currentSlide ?r) (Num 1)) (Num (int (totalSlides ?r))) =
            Num ((c + 1) mod int (length sl))" by (simp add: n)
  from w show "js_rem (js_add (js_sub (currentSlide ?r) (Num 1)) (Num (int (totalSlides ?r))))
                 (Num (int (totalSlides ?r))) =
            Num ((c - 1 + int (length sl)) mod int (length sl))" by (simp add: n)
  from w show "0 \<le> (c + 1) mod int (length sl)" "(c + 1) mod int (length sl) < int (length sl)"
    "0 \<le> (c - 1 + int (length sl)) mod int (length sl)"
    "(c - 1 + int (length sl)) mod int (length sl) < int (length sl)" by blast+
  {
    assume "isTransitioning ?r"
    with w show "run (acts @ [Next]) (initial sl p n) = ?r" "run (acts @ [Prev]) (initial sl p n) = ?r"
      by (simp_all add: run_append)
  }
  assume idle: "\<not> isTransitioning ?r"
  with w show nx: "currentSlide (run (acts @ [Next]) (initial sl p n)) = Num ((c + 1) mod int (length sl))"
    and "currentSlide (run (acts @ [Prev]) (initial sl p n)) =
               Num ((c - 1 + int (length sl)) mod int (length sl))"
    by (simp_all add: run_append)
  assume "c = int (length sl) - 1"
  with nx show "currentSlide (run (acts @ [Next]) (initial sl p n)) = Num 0" by simp
qed


text \<open>
  The instances, on three slides: \<open>prevSlide\<close> and \<open>nextSlide\<close> at index 0 with the
  autoplay paused; \<open>nextSlide\<close> at index 2, reached by a settled \<open>prevSlide\<close>; and a
  second call during the transition the first one started.
\<close>

theorem index_stays_in_range_witness:
  "demo_slides \<noteq> [] \<and>
   constructor demo_slides None None = Returns (initial demo_slides None None) \<and>
   index_in_range (run [PauseAutoplay] (initial demo_slides None None)) \<and>
   \<not> isTransitioning (run [PauseAutoplay] (initial demo_slides None None)) \<and>
   currentSlide (run [PauseAutoplay] (initial demo_slides None None)) = Num 0 \<and>
   currentSlide (run ([PauseAutoplay] @ [Prev]) (initial demo_slides None None)) = Num 2 \<and>
   currentSlide (run ([PauseAutoplay] @ [Next]) (initial demo_slides None None)) = Num 1 \<and>
   \<not> isTransitioning (run [Prev, Elapse 800] (initial demo_slides None None)) \<and>
   currentSlide (run [Prev, Elapse 800] (initial demo_slides None None)) = Num 2 \<and>
   currentSlide (run ([Prev, Elapse 800] @ [Next]) (initial demo_slides None None)) = Num 0 \<and>
   isTransitioning (run [Next] (initial demo_slides None None)) \<and>
   currentSlide (run [Next] (initial demo_slides None None)) = Num 1 \<and>
   run ([Next] @ [Next]) (initial demo_slides None None) = run [Next] (initial demo_slides None None) \<and>
   run ([Next] @ [Prev]) (initial demo_slides None None) = run [Next] (initial demo_slides None None)"
proof -
  let ?t = "initial demo_slides None None"
  have ne: "demo_slides \<noteq> []" by (simp add: demo_slides_def)
  have len: "length demo_slides = 3" by (simp add: demo_slides_def)
  have i: "slider_inv ?t" by (rule inv_demo)
  have t: "\<not> isTransitioning ?t" "currentSlide ?t = Num 0" "clickDelay ?t = 800" "totalSlides ?t = 3"
    by (simp_all add: initial_def demo_slides_def)
  have a: "\<not> isTransitioning (run [PauseAutoplay] ?t)" "currentSlide (run [PauseAutoplay] ?t) = Num 0"
    by (simp_all add: run_def initial_def)
  have b: "\<not> isTransitioning (run [Prev, Elapse 800] ?t)" "currentSlide (run [Prev, Elapse 800] ?t) = Num 2"
    using prev_then_settle[OF i t(1,2)] t(3,4) by simp_all
  have "nextSlide ?t = Returns (shown ?t (Num 1) 1)"
    by (simp add: nextSlide_def showSlide_idle initial_def demo_slides_def)
  then have c: "isTransitioning (run [Next] ?t)" "currentSlide (run [Next] ?t) = Num 1"
    by (simp_all add: run_def settle_def)
  from index_stays_in_range[OF ne, of None None "[PauseAutoplay]" 0]
       index_stays_in_range[OF ne, of None None "[Prev, Elapse 800]" 2]
       index_stays_in_range[OF ne, of None None "[Next]" 1]
       ne len a b c
  show ?thesis by simp
qed

lemma indexOf_char_range:
  "indexOf s [c] = - 1 \<or> (0 \<le> indexOf s [c] \<and> indexOf s [c] < int (length s))"
proof (cases "c \<in> set s")
  case True
  then have "length (takeWhile (\<lambda>x. x \<noteq> c) s) < length s"
    by (induction s) auto
  with True show ?thesis by (simp add: indexOf_char)
next
  case False
  then show ?thesis by (simp add: indexOf_char)
qed

lemma transformHref_has_ext: "sublist ''.html'' (transformHref href)"
  by (simp only: transformHref_is_cfg transformHref_cfg_spec transform_spec_has_ext)

lemma run_callback_inv: "slider_inv s \<Longrightarrow> \<exists>s'. run_callback f s = Returns s'"
proof (cases f)
  case ReleaseLock
  then show ?thesis by (simp add: run_callback_def)
next
  case AutoplayTick
  assume "slider_inv s"
  then obtain s' where "nextSlide s = Returns s'" using nextSlide_inv by blast
  with AutoplayTick show ?thesis by (simp add: run_callback_def)
qed

lemma next_index_item:
  assumes "slider_inv s"
  shows "item (slides s) (js_rem (js_add (currentSlide s) (Num 1)) (Num (int (totalSlides s)))) \<noteq> None"
proof -
  from inv_fields(3)[OF assms] obtain c where c: "currentSlide s = Num c" "0 \<le> c"
    using index_in_range_Num by blast
  with inv_fields(1,2)[OF assms] show ?thesis
    by (simp add: js_rem_nonneg)
qed

lemma prev_index_item:
  assumes "slider_inv s"
  shows "item (slides s) (js_rem (js_add (js_sub (currentSlide s) (Num 1)) (Num (int (totalSlides s))))
                                 (Num (int (totalSlides s)))) \<noteq> None"
proof -
  let ?n = "int (totalSlides s)"
  from inv_fields(3)[OF assms] obtain c where c: "currentSlide s = Num c" "0 \<le> c" "c < ?n"
    using index_in_range_Num by blast
  then have "js_rem (Num (c - 1 + ?n)) (Num ?n) = Num ((c - 1 + ?n) mod ?n)"
    by (intro js_rem_nonneg) simp_all
  moreover have "0 \<le> (c - 1 + ?n) mod ?n" "(c - 1 + ?n) mod ?n < ?n"
    using c by simp_all
  ultimately show ?thesis using c(1) inv_fields(1)[OF assms] by simp
qed

text \<open>
  C8. Called on a string, \<open>transformHref\<close> returns a string (one that contains
  \<open>.html\<close>), and the position it cuts at is either absent or inside the string, so
  both \<open>substring\<close> calls get indices in range. On a slider with at least one slide,
  in any state it can reach, \<open>nextSlide\<close>, \<open>prevSlide\<close> and both timer callbacks
  return without throwing, the index they pass to \<open>showSlide\<close> names a slide, every
  operation leads to a state of the same kind again, and no sequence of operations
  and timer callbacks leaves an uncaught error. The constructor returns such a
  state when there is at least one slide.
\<close>

theorem operations_never_throw:
  "transformHref_call (JString href) = Inr (transformHref href) \<and>
   sublist ''.html'' (transformHref href) \<and>
   (indexOf href ''#'' = - 1 \<or> (0 \<le> indexOf href ''#'' \<and> indexOf href ''#'' < int (length href))) \<and>
   (slider_inv s \<longrightarrow>
      (\<exists>s'. nextSlide s = Returns s' \<and> slider_inv s') \<and>
      (\<exists>s'. prevSlide s = Returns s' \<and> slider_inv s') \<and>
      (\<exists>s'. run_callback f s = Returns s') \<and>
      item (slides s) (js_rem (js_add (currentSlide s) (Num 1)) (Num (int (totalSlides s)))) \<noteq> None \<and>
      item (slides s) (js_rem (js_add (js_sub (currentSlide s) (Num 1)) (Num (int (totalSlides s))))
                              (Num (int (totalSlides s)))) \<noteq> None \<and>
      slider_inv (startAutoplay s) \<and> slider_inv (pauseAutoplay s) \<and> slider_inv (restartAutoplay s) \<and>
      slider_inv (elapse k s) \<and> slider_inv (run acts s) \<and> uncaught (run acts s) = []) \<and>
   (sl \<noteq> [] \<longrightarrow> constructor sl p n = Returns (initial sl p n) \<and> slider_inv (initial sl p n))"
proof (intro conjI impI)
  show "indexOf href ''#'' = - 1 \<or> (0 \<le> indexOf href ''#'' \<and> indexOf href ''#'' < int (length href))"
    by (rule indexOf_char_range)
  show "sublist ''.html'' (transformHref href)" by (rule transformHref_has_ext)
next
  assume i: "slider_inv s"
  then have "slider_inv (run acts s)" by (rule inv_run)
  then show "uncaught (run acts s) = []" by (rule inv_fields)
qed (simp_all add: nextSlide_inv prevSlide_inv run_callback_inv next_index_item prev_index_item
      inv_startAutoplay inv_pauseAutoplay restartAutoplay_def inv_elapse inv_run
      constructor_initial inv_initial)

text \<open>The instance: an href with a hash, and the fresh slider with three slides.\<close>

theorem operations_never_throw_witness:
  "transformHref_call (JString ''/src/pages#workshop'') = Inr ''/src/pages/index.html#workshop'' \<and>
   slider_inv (initial demo_slides None None) \<and>
   (\<exists>s'. nextSlide (initial demo_slides None None) = Returns s' \<and> slider_inv s') \<and>
   (\<exists>s'. prevSlide (initial demo_slides None None) = Returns s' \<and> slider_inv s') \<and>
   (\<exists>s'. run_callback AutoplayTick (initial demo_slides None None) = Returns s') \<and>
   uncaught (run [Elapse 3000, Prev, Elapse 10000] (initial demo_slides None None)) = [] \<and>
   demo_slides \<noteq> [] \<and>
   constructor demo_slides None None = Returns (initial demo_slides None None)"
proof -
  have ne: "demo_slides \<noteq> []" by (simp add: demo_slides_def)
  have i: "slider_inv (initial demo_slides None None)" by (rule inv_demo)
  have h: "transformHref ''/src/pages#workshop'' = ''/src/pages/index.html#workshop''"
    by code_simp
  from operations_never_throw[of "''/src/pages#workshop''" "initial demo_slides None None"
      AutoplayTick 0 "[Elapse 3000, Prev, Elapse 10000]" demo_slides None None] ne i h
  show ?thesis by simp
qed

text \<open>
  C10. Outside a transition, \<open>showSlide\<close> called with the index the slider is
  already at does not return the state it was given: it sets the lock, makes that
  slide visible again, and arms the release one settle delay later. Until that
  delay has passed the lock is held and calls of \<open>nextSlide\<close> and \<open>prevSlide\<close> are
  dropped; when it has passed the lock is free. With a single slide \<open>nextSlide\<close> is
  this call: the index it computes is 0, the index of the only slide.
\<close>

theorem same_index_still_transitions:
  assumes "slider_inv s" "\<not> isTransitioning s" "k < clickDelay s"
  shows "\<exists>s' j.
           showSlide (currentSlide s) s = Returns s' \<and> s' \<noteq> s \<and>
           isTransitioning s' \<and> currentSlide s' = currentSlide s \<and>
           item (slides s') (currentSlide s) = Some j \<and>
           ''opacity-100'' \<in> set (slides s' ! j) \<and> ''opacity-0'' \<notin> set (slides s' ! j) \<and>
           release_timers s' =
             [\<lparr>tid = nextTimerId s, due = now s + clickDelay s, period = None, cb = ReleaseLock\<rparr>] \<and>
           isTransitioning (elapse k s') \<and>
           nextSlide (elapse k s') = Returns (elapse k s') \<and>
           prevSlide (elapse k s') = Returns (elapse k s') \<and>
           \<not> isTransitioning (elapse (clickDelay s) s') \<and>
           (totalSlides s = 1 \<longrightarrow> currentSlide s = Num 0 \<and> nextSlide s = Returns s')"
proof -
  from inv_fields(3)[OF assms(1)] obtain c where
    c: "currentSlide s = Num c" "0 \<le> c" "c < int (totalSlides s)"
    using index_in_range_Num by blast
  let ?s' = "shown s (Num c) (nat c)"
  have len: "nat c < length (slides s)" using c inv_fields(1)[OF assms(1)] by simp
  have it: "item (slides s) (Num c) = Some (nat c)"
    using c inv_fields(1)[OF assms(1)] by simp
  have sh: "showSlide (currentSlide s) s = Returns ?s'"
    using assms(2) it unfolding c(1) by (rule showSlide_idle)
  have it': "item (slides ?s') (currentSlide s) = Some (nat c)"
    using it c(1) item_length_cong[of "slides ?s'" "slides s" "Num c"] by simp
  have vis: "''opacity-100'' \<in> set (slides ?s' ! nat c) \<and> ''opacity-0'' \<notin> set (slides ?s' ! nat c)"
    using len by (rule shown_slide_visible)
  have rel: "release_timers ?s' =
             [\<lparr>tid = nextTimerId s, due = now s + clickDelay s, period = None, cb = ReleaseLock\<rparr>]"
    using inv_idle_release[OF assms(1,2)] by (rule shown_release_timers)
  have hold: "slider_inv (elapse k ?s') \<and> isTransitioning (elapse k ?s') \<and> currentSlide (elapse k ?s') = Num c"
    using assms(1,2) c(2,3) assms(3) by (rule settle_delay_holds)
  then have drop: "nextSlide (elapse k ?s') = Returns (elapse k ?s')"
    "prevSlide (elapse k ?s') = Returns (elapse k ?s')"
    by (simp_all add: nextSlide_def prevSlide_def showSlide_locked)
  have free: "\<not> isTransitioning (elapse (clickDelay s) ?s')"
    using settle_delay_releases[OF assms(1,2) c(2,3)] by simp
  have one: "totalSlides s = 1 \<longrightarrow> currentSlide s = Num 0 \<and> nextSlide s = Returns ?s'"
  proof
    assume n1: "totalSlides s = 1"
    with c have c0: "c = 0" by simp
    have "nextSlide s = Returns (shown s (Num ((c + 1) mod int (totalSlides s))) (nat ((c + 1) mod int (totalSlides s))))"
      using inv_fields(3,1)[OF assms(1)] assms(2) c(1) by (rule nextSlide_idle)
    with n1 c0 c(1) show "currentSlide s = Num 0 \<and> nextSlide s = Returns ?s'" by simp
  qed
  from sh shown_neq[OF assms(2)] it' vis rel hold drop free one c(1) show ?thesis
    by (intro exI[of _ ?s'] exI[of _ "nat c"]) simp
qed

text \<open>
  The instance: a slider with one slide, just constructed, 799 ms into the
  transition.
\<close>

theorem same_index_still_transitions_witness:
  "slider_inv (initial [[''testimonial-slide'', ''opacity-100'']] None None) \<and>
   \<not> isTransitioning (initial [[''testimonial-slide'', ''opacity-100'']] None None) \<and>
   799 < clickDelay (initial [[''testimonial-slide'', ''opacity-100'']] None None) \<and>
   totalSlides (initial [[''testimonial-slide'', ''opacity-100'']] None None) = 1 \<and>
   (\<exists>s'. nextSlide (initial [[''testimonial-slide'', ''opacity-100'']] None None) = Returns s' \<and>
      s' \<noteq> initial [[''testimonial-slide'', ''opacity-100'']] None None \<and>
      isTransitioning s' \<and> currentSlide s' = Num 0 \<and>
      isTransitioning (elapse 799 s') \<and>
      nextSlide (elapse 799 s') = Returns (elapse 799 s') \<and>
      \<not> isTransitioning (elapse 800 s'))"
proof -
  let ?t = "initial [[''testimonial-slide'', ''opacity-100'']] None None"
  have i: "slider_inv ?t" by (rule inv_initial) simp
  have f: "\<not> isTransitioning ?t" "799 < clickDelay ?t" "totalSlides ?t = 1" "clickDelay ?t = 800"
    "currentSlide ?t = Num 0"
    by (simp_all add: initial_def)
  from same_index_still_transitions[OF i f(1,2)] obtain s' j where
    "showSlide (currentSlide ?t) ?t = Returns s'" "s' \<noteq> ?t" "isTransitioning s'"
    "currentSlide s' = currentSlide ?t" "isTransitioning (elapse 799 s')"
    "nextSlide (elapse 799 s') = Returns (elapse 799 s')"
    "\<not> isTransitioning (elapse (clickDelay ?t) s')"
    "totalSlides ?t = 1 \<longrightarrow> currentSlide ?t = Num 0 \<and> nextSlide ?t = Returns s'"
    by blast
  with i f show ?thesis by (intro conjI exI[of _ s']) simp_all
qed

text \<open>
  C3, as the specification states it, asks the constructor to reject an empty slide
  list. The constructor has no such check. On an empty list it returns, and in the
  state it returns the index \<open>nextSlide\<close> computes is the remainder by zero, \<open>NaN\<close>;
  \<open>showSlide\<close> then throws at the read of the missing slide, after it has set the
  lock.
\<close>

theorem constructor_accepts_no_slides:
  "constructor [] None None = Returns (initial [] None None) \<and>
   totalSlides (initial [] None None) = 0 \<and>
   js_rem (js_add (currentSlide (initial [] None None)) (Num 1))
          (Num (int (totalSlides (initial [] None None)))) = NaN \<and>
   nextSlide (initial [] None None) =
     Throws TypeError ((initial [] None None)\<lparr>isTransitioning := True\<rparr>)"
  by (simp add: constructor_initial)
     (simp add: initial_def nextSlide_def showSlide_def disableButtons_def Let_def)

text \<open>
  C3, amended. Constructing the slider on an empty slide list does not fail,
  whatever the buttons: the constructor returns a slider outside a transition, with
  no slides, the index at 0 and the autoplay interval armed.
\<close>

theorem empty_slide_list_is_accepted:
  "constructor [] p n = Returns (initial [] p n) \<and>
   totalSlides (initial [] p n) = 0 \<and>
   currentSlide (initial [] p n) = Num 0 \<and>
   \<not> isTransitioning (initial [] p n) \<and>
   autoplay_timers (initial [] p n) =
     [\<lparr>tid = 1, due = 3000, period = Some 3000, cb = AutoplayTick\<rparr>]"
  by (simp add: constructor_initial) (simp add: initial_def autoplay_timers_def)

end
